theory Spec2Isabelle
  imports Main "HOL-Library.Char_ord" "HOL-Library.List_Lexorder" "HOL-Library.Multiset"
    "HOL-Library.Word"
begin

section \<open>JavaScript values seen by \<open>groupBy\<close> (src/ps5.js, lines 16-40)\<close>

text \<open>
  The values that flow through \<open>groupBy\<close>: the elements of the array \<open>objects\<close>, the
  group names the key selector computes, and the argument \<open>property\<close> when it is not a
  function. An object is a reference; two references are the same value exactly when
  they are the same address, which is what \<open>Map\<close> uses to compare keys (SameValueZero).

  \<open>Num w\<close> is the number value of the integer \<open>sint w\<close>, an integer from \<open>-2^53\<close> to
  \<open>2^53 - 1\<close>. Every such integer is a number value, two of them are the same value
  exactly when they are the same integer, and the string of each is its decimal
  numeral (the exponent form starts at \<open>10^21\<close>). Fractions, NaN, the infinities,
  negative zero and larger numbers are no values of this type. \<open>Str s\<close> is a string of
  code units below 256, compared code unit by code unit. Symbols and BigInts are no
  values of this type either.
\<close>

type_synonym addr = nat

datatype jsval = Undefined | Null | Bool bool | Num "54 word" | Str string | Ref addr

text \<open>What a call can throw: the engine's TypeError, or whatever the caller's code throws.\<close>

datatype error = TypeError | Thrown jsval

text \<open>
  The caller's objects, as \<open>groupBy\<close> can read them. \<open>props h a name\<close> is what the
  property read \<open>obj[name]\<close> does on the object at address \<open>a\<close>: \<open>None\<close> when the object
  lacks the field, \<open>Some (Inr v)\<close> when the read finds the value \<open>v\<close> (own or
  inherited), \<open>Some (Inl e)\<close> when the read runs a getter that throws \<open>e\<close>.
  \<open>objString h a\<close> is the string the object converts to (\<open>[object Object]\<close> for a plain
  object), \<open>None\<close> when the conversion throws a TypeError, as it does for an object with
  neither \<open>toString\<close> nor \<open>valueOf\<close> to call. The three prototype tables say what a
  property read does on a string, number or boolean beyond a string's own \<open>length\<close>
  and indices. Getters and conversions that write to objects, and conversions that
  throw something other than a TypeError, are outside this description.
\<close>

record heap =
  props :: "addr \<Rightarrow> string \<rightharpoonup> error + jsval"
  objString :: "addr \<Rightarrow> string option"
  strProto :: "string \<rightharpoonup> error + jsval"
  numProto :: "string \<rightharpoonup> error + jsval"
  boolProto :: "string \<rightharpoonup> error + jsval"

section \<open>String conversion and property keys\<close>

definition digit :: "int \<Rightarrow> char" where
  "digit d = char_of (48 + d)"

text \<open>The decimal digits of a non-negative integer, most significant first.\<close>

function digits :: "int \<Rightarrow> string" where
  "digits n = (if n < 10 then [digit n] else digits (n div 10) @ [digit (n mod 10)])"
  by pat_completeness auto
termination
  by (relation "measure nat") auto

declare digits.simps [simp del]

definition numberToString :: "54 word \<Rightarrow> string" where
  "numberToString w =
     (if sint w < 0 then CHR ''-'' # digits (- sint w) else digits (sint w))"

text \<open>
  ToString, as the comparisons of \<open>Array.prototype.sort\<close>, the key of a property read
  and the key of the assignment \<open>result[key]\<close> apply it. Only the conversion of an
  object can throw.
\<close>

fun toString :: "heap \<Rightarrow> jsval \<Rightarrow> error + string" where
  "toString h Undefined = Inr ''undefined''"
| "toString h Null = Inr ''null''"
| "toString h (Bool b) = Inr (if b then ''true'' else ''false'')"
| "toString h (Num n) = Inr (numberToString n)"
| "toString h (Str s) = Inr s"
| "toString h (Ref a) = (case objString h a of None \<Rightarrow> Inl TypeError | Some s \<Rightarrow> Inr s)"

text \<open>
  An array index is the canonical decimal string of an integer from 0 to \<open>2^32 - 2\<close>: an
  object lists such keys first, in ascending numeric order, whatever the order in which
  they were created.
\<close>

definition stringToInt :: "string \<Rightarrow> int" where
  "stringToInt s = foldl (\<lambda>acc c. 10 * acc + (of_char c - 48)) 0 s"

definition isArrayIndex :: "string \<Rightarrow> bool" where
  "isArrayIndex s \<longleftrightarrow>
     s \<noteq> [] \<and> list_all (\<lambda>c. 48 \<le> (of_char c :: int) \<and> (of_char c :: int) \<le> 57) s \<and>
     digits (stringToInt s) = s \<and> stringToInt s \<le> 4294967294"

section \<open>Property reads: \<open>obj[propName]\<close>\<close>

definition lookupOr :: "(string \<rightharpoonup> error + jsval) \<Rightarrow> string \<Rightarrow> error + jsval" where
  "lookupOr tbl k = (case tbl k of None \<Rightarrow> Inr Undefined | Some r \<Rightarrow> r)"

text \<open>
  Reading a property of \<open>undefined\<close> or \<open>null\<close> throws a TypeError. On any other value
  the name is converted to a key first, which can throw; then the read yields the
  value found, \<open>undefined\<close> when the field is missing, or what a getter throws.
\<close>

fun getProp :: "heap \<Rightarrow> jsval \<Rightarrow> jsval \<Rightarrow> error + jsval" where
  "getProp h Undefined propName = Inl TypeError"
| "getProp h Null propName = Inl TypeError"
| "getProp h (Ref a) propName =
     (case toString h propName of
        Inl e \<Rightarrow> Inl e
      | Inr k \<Rightarrow> lookupOr (props h a) k)"
| "getProp h (Str s) propName =
     (case toString h propName of
        Inl e \<Rightarrow> Inl e
      | Inr k \<Rightarrow>
          if k = ''length'' then Inr (Num (of_nat (length s)))
          else if isArrayIndex k \<and> stringToInt k < int (length s)
          then Inr (Str [s ! nat (stringToInt k)])
          else lookupOr (strProto h) k)"
| "getProp h (Num n) propName =
     (case toString h propName of
        Inl e \<Rightarrow> Inl e
      | Inr k \<Rightarrow> lookupOr (numProto h) k)"
| "getProp h (Bool b) propName =
     (case toString h propName of
        Inl e \<Rightarrow> Inl e
      | Inr k \<Rightarrow> lookupOr (boolProto h) k)"

section \<open>The argument \<open>property\<close> and its normalisation (lines 19-22)\<close>

text \<open>
  \<open>property\<close> is either a function (\<open>typeof property === 'function'\<close>), modelled by the
  pure function it computes from the heap and its argument, or any other value.
\<close>

datatype property = Callable "heap \<Rightarrow> jsval \<Rightarrow> error + jsval" | NotCallable jsval

definition keySelector :: "heap \<Rightarrow> property \<Rightarrow> jsval \<Rightarrow> error + jsval" where
  "keySelector h property =
     (case property of
        Callable f \<Rightarrow> f h
      | NotCallable propName \<Rightarrow> (\<lambda>obj. getProp h obj propName))"

section \<open>The \<open>Map\<close> of groups (lines 24-32)\<close>

text \<open>
  A \<open>Map\<close> as its entries in insertion order. Each value is the array of that group:
  the array itself where arrays are values, its address where they live in a store.
\<close>

type_synonym 'v jsmap = "(jsval \<times> 'v) list"

definition has :: "'v jsmap \<Rightarrow> jsval \<Rightarrow> bool" where
  "has m k \<longleftrightarrow> k \<in> set (map fst m)"

definition get :: "'v jsmap \<Rightarrow> jsval \<Rightarrow> 'v option" where
  "get m k = map_of m k"

fun set_entry :: "'v jsmap \<Rightarrow> jsval \<Rightarrow> 'v \<Rightarrow> 'v jsmap" where
  "set_entry [] k v = [(k, v)]"
| "set_entry ((k', v') # m) k v = (if k' = k then (k, v) # m else (k', v') # set_entry m k v)"

text \<open>
  \<open>groupedObjects.get(groupName).push(object)\<close>: the array stored under the key grows
  by one element; calling \<open>push\<close> on \<open>undefined\<close> would be a TypeError.
\<close>

definition push :: "jsval list jsmap \<Rightarrow> jsval \<Rightarrow> jsval \<Rightarrow> error + jsval list jsmap" where
  "push m k x = (case get m k of None \<Rightarrow> Inl TypeError | Some arr \<Rightarrow> Inr (set_entry m k (arr @ [x])))"

fun accumulate ::
  "(jsval \<Rightarrow> error + jsval) \<Rightarrow> jsval list \<Rightarrow> jsval list jsmap \<Rightarrow> error + jsval list jsmap" where
  "accumulate sel [] groupedObjects = Inr groupedObjects"
| "accumulate sel (object # rest) groupedObjects =
     (case sel object of
        Inl e \<Rightarrow> Inl e
      | Inr groupName \<Rightarrow>
          (case push (if \<not> has groupedObjects groupName
                      then set_entry groupedObjects groupName []
                      else groupedObjects) groupName object of
             Inl e \<Rightarrow> Inl e
           | Inr m \<Rightarrow> accumulate sel rest m))"

section \<open>Sorting the keys and filling the result (lines 34-39)\<close>

text \<open>
  \<open>Array.prototype.sort\<close> without a comparator. The \<open>undefined\<close> elements go to the end
  and are not compared. The others are ordered by their string conversions, and
  elements with equal strings keep their order (the sort is stable). Fewer than two
  elements need no comparison; from two on, every element is compared with another and
  so converted to a string, and a conversion that throws ends the sort.
\<close>

fun strings :: "heap \<Rightarrow> jsval list \<Rightarrow> error + (string \<times> jsval) list" where
  "strings h [] = Inr []"
| "strings h (x # xs) =
     (case toString h x of
        Inl e \<Rightarrow> Inl e
      | Inr s \<Rightarrow>
          (case strings h xs of
             Inl e \<Rightarrow> Inl e
           | Inr ps \<Rightarrow> Inr ((s, x) # ps)))"

definition array_sort :: "heap \<Rightarrow> jsval list \<Rightarrow> error + jsval list" where
  "array_sort h xs =
     (let items = filter (\<lambda>x. x \<noteq> Undefined) xs;
          undefs = filter (\<lambda>x. x = Undefined) xs
      in if length items < 2 then Inr (items @ undefs)
         else
           (case strings h items of
              Inl e \<Rightarrow> Inl e
            | Inr ps \<Rightarrow> Inr (map snd (sort_key fst ps) @ undefs)))"

text \<open>
  The result object as its own properties in creation order. Writing to an existing
  property replaces its value and keeps its place. A property holds an array (the
  array itself, or its address where arrays live in a store), or \<open>undefined\<close>
  (\<open>None\<close>) when \<open>Map.get\<close> finds nothing.
\<close>

type_synonym 'v jsobject = "(string \<times> 'v option) list"

fun setProp :: "'v jsobject \<Rightarrow> string \<Rightarrow> 'v option \<Rightarrow> 'v jsobject" where
  "setProp [] k v = [(k, v)]"
| "setProp ((k', v') # ps) k v = (if k' = k then (k, v) # ps else (k', v') # setProp ps k v)"

text \<open>
  The assignment \<open>result[key] = value\<close>, once the key is a string. For the key
  \<open>__proto__\<close> it creates no property: it runs the setter that \<open>result\<close> inherits from
  \<open>Object.prototype\<close>, which replaces the prototype of \<open>result\<close> and leaves its own
  properties, the ones kept here, as they are.
\<close>

definition assign :: "'v jsobject \<Rightarrow> string \<Rightarrow> 'v option \<Rightarrow> 'v jsobject" where
  "assign obj k v = (if k = ''__proto__'' then obj else setProp obj k v)"

text \<open>The loop of lines 36-38; converting a key to the property name can throw.\<close>

fun fill :: "heap \<Rightarrow> 'v jsmap \<Rightarrow> jsval list \<Rightarrow> 'v jsobject \<Rightarrow> error + 'v jsobject" where
  "fill h groupedObjects [] result = Inr result"
| "fill h groupedObjects (key # keys) result =
     (case toString h key of
        Inl e \<Rightarrow> Inl e
      | Inr name \<Rightarrow> fill h groupedObjects keys (assign result name (get groupedObjects key)))"

definition groupBy :: "heap \<Rightarrow> jsval list \<Rightarrow> property \<Rightarrow> error + jsval list jsobject" where
  "groupBy h objects property =
     (case accumulate (keySelector h property) objects [] of
        Inl e \<Rightarrow> Inl e
      | Inr groupedObjects \<Rightarrow>
          (case array_sort h (map fst groupedObjects) of
             Inl e \<Rightarrow> Inl e
           | Inr sortedKeys \<Rightarrow> fill h groupedObjects sortedKeys []))"

section \<open>Reading the result\<close>

text \<open>
  The order in which an object lists its own properties (\<open>Object.keys\<close>,
  \<open>Object.entries\<close>, \<open>for ... in\<close>): array indices in ascending numeric order, then the
  other keys in creation order.
\<close>

definition entries :: "'v jsobject \<Rightarrow> (string \<times> 'v option) list" where
  "entries obj =
     sort_key (\<lambda>p. stringToInt (fst p)) (filter (\<lambda>p. isArrayIndex (fst p)) obj) @
     filter (\<lambda>p. \<not> isArrayIndex (fst p)) obj"

definition keys :: "'v jsobject \<Rightarrow> string list" where
  "keys obj = map fst (entries obj)"

text \<open>The records a property holds: none when it holds \<open>undefined\<close>.\<close>

definition elems :: "jsval list option \<Rightarrow> jsval list" where
  "elems v = (case v of None \<Rightarrow> [] | Some arr \<Rightarrow> arr)"

text \<open>The sum of the sizes of the groups an object holds.\<close>

definition totalSize :: "jsval list jsobject \<Rightarrow> nat" where
  "totalSize obj = sum_list (map (\<lambda>p. length (elems (snd p))) obj)"

text \<open>
  Flattening a result, as the regrouping property of the specification does: the
  groups in the order the result lists its keys, the records of each group in their
  stored order.
\<close>

definition flatten :: "jsval list jsobject \<Rightarrow> jsval list" where
  "flatten obj = concat (map (\<lambda>p. elems (snd p)) (entries obj))"

section \<open>The group names of a run\<close>

text \<open>
  The group names the selector computes on the records, in input order, and the same
  names in the order of their first occurrence, which is the order of the \<open>Map\<close>'s keys.
\<close>

definition selected :: "(jsval \<Rightarrow> error + jsval) \<Rightarrow> jsval list \<Rightarrow> jsval list" where
  "selected sel S = concat (map (\<lambda>r. case sel r of Inl e \<Rightarrow> [] | Inr k \<Rightarrow> [k]) S)"

primrec firstSeen :: "'a list \<Rightarrow> 'a list" where
  "firstSeen [] = []"
| "firstSeen (k # ks) = k # filter (\<lambda>k'. k' \<noteq> k) (firstSeen ks)"

definition groupOf :: "(jsval \<Rightarrow> error + jsval) \<Rightarrow> jsval list \<Rightarrow> jsval \<Rightarrow> jsval list" where
  "groupOf sel S k = filter (\<lambda>r. sel r = Inr k) S"

text \<open>The \<open>Map\<close> the loop builds: one entry per group name, in first-seen order.\<close>

definition grouped :: "(jsval \<Rightarrow> error + jsval) \<Rightarrow> jsval list \<Rightarrow> jsval list jsmap" where
  "grouped sel S = map (\<lambda>k. (k, groupOf sel S k)) (firstSeen (selected sel S))"

section \<open>Runs in which every name converts\<close>

text \<open>
  When every group name converts to a string, sorting and filling cannot throw and are
  the following functions of the names' strings; the proofs below work on them.
  \<open>str\<close> is the string of a name that converts.
\<close>

definition str :: "heap \<Rightarrow> jsval \<Rightarrow> string" where
  "str h k = (case toString h k of Inl e \<Rightarrow> [] | Inr s \<Rightarrow> s)"

definition converts :: "heap \<Rightarrow> jsval \<Rightarrow> bool" where
  "converts h k \<longleftrightarrow> (case toString h k of Inl e \<Rightarrow> False | Inr s \<Rightarrow> True)"

definition sortNames :: "heap \<Rightarrow> jsval list \<Rightarrow> jsval list" where
  "sortNames h xs =
     sort_key (str h) (filter (\<lambda>x. x \<noteq> Undefined) xs) @ filter (\<lambda>x. x = Undefined) xs"

fun fillNames :: "heap \<Rightarrow> 'v jsmap \<Rightarrow> jsval list \<Rightarrow> 'v jsobject \<Rightarrow> 'v jsobject" where
  "fillNames h m [] result = result"
| "fillNames h m (key # rest) result =
     fillNames h m rest (assign result (str h key) (get m key))"

text \<open>The sorted names whose assignment reaches a property of the result.\<close>

definition assigned :: "heap \<Rightarrow> jsval list \<Rightarrow> jsval list" where
  "assigned h ks = filter (\<lambda>k. str h k \<noteq> ''__proto__'') (sortNames h ks)"

section \<open>Example heaps\<close>

text \<open>
  Heaps of plain objects, given by the fields of each address; the members every plain
  object inherits from \<open>Object.prototype\<close>, which no example reads, are left out.
\<close>

definition plainHeap :: "(addr \<Rightarrow> string \<rightharpoonup> jsval) \<Rightarrow> heap" where
  "plainHeap ps = \<lparr> props = (\<lambda>a name. map_option Inr (ps a name)),
     objString = (\<lambda>a. Some ''[object Object]''),
     strProto = Map.empty, numProto = Map.empty, boolProto = Map.empty \<rparr>"

definition teamHeap :: heap where
  "teamHeap = plainHeap (\<lambda>a.
     if a = 0 then [''name'' \<mapsto> Str ''Steve'', ''team'' \<mapsto> Str ''blue'']
     else if a = 1 then [''name'' \<mapsto> Str ''Jack'', ''team'' \<mapsto> Str ''red'']
     else [''name'' \<mapsto> Str ''Carol'', ''team'' \<mapsto> Str ''blue''])"

definition collideHeap :: heap where
  "collideHeap = plainHeap (\<lambda>a. if a = 0 then [''k'' \<mapsto> Num 1] else [''k'' \<mapsto> Str ''1''])"

definition nullHeap :: heap where
  "nullHeap = plainHeap (\<lambda>a. if a = 0 then [''null'' \<mapsto> Str ''a''] else Map.empty)"

definition fiveHeap :: heap where
  "fiveHeap = plainHeap (\<lambda>a. [''x'' \<mapsto> Num 5])"

definition nullKeyHeap :: heap where
  "nullKeyHeap = plainHeap (\<lambda>a. if a = 0 then [''k'' \<mapsto> Null] else [''k'' \<mapsto> Str ''null''])"

definition negHeap :: heap where
  "negHeap = plainHeap (\<lambda>a. if a = 0 then [''n'' \<mapsto> Num (- 2)] else [''n'' \<mapsto> Num (- 1)])"

definition strHeap :: heap where
  "strHeap = plainHeap (\<lambda>a. if a = 0 then [''s'' \<mapsto> Str ''10''] else [''s'' \<mapsto> Str ''9''])"

definition mixedHeap :: heap where
  "mixedHeap = plainHeap (\<lambda>a.
     if a = 0 then [''k'' \<mapsto> Num 10]
     else if a = 1 then [''k'' \<mapsto> Num 9]
     else if a = 2 then [''k'' \<mapsto> Str ''b'']
     else if a = 3 then [''k'' \<mapsto> Str ''a'']
     else Map.empty)"

definition undefHeap :: heap where
  "undefHeap = plainHeap (\<lambda>a.
     if a = 0 then [''k'' \<mapsto> Str ''undefined'']
     else if a = 1 then [''k'' \<mapsto> Str ''zebra'']
     else Map.empty)"

definition undefFirstHeap :: heap where
  "undefFirstHeap = plainHeap (\<lambda>a. if a = 0 then Map.empty else [''k'' \<mapsto> Str ''undefined''])"

text \<open>
  A heap in which the object at address 1 has no string conversion (as one made by
  \<open>Object.create(null)\<close>), and the object at address 2 has a getter \<open>k\<close> that throws.
\<close>

definition bareHeap :: heap where
  "bareHeap = \<lparr> props = (\<lambda>a. if a = 0 then [''k'' \<mapsto> Inr (Ref 1)]
                               else if a = 2 then [''k'' \<mapsto> Inl (Thrown (Str ''no''))]
                               else Map.empty),
     objString = (\<lambda>a. if a = 1 then None else Some ''[object Object]''),
     strProto = Map.empty, numProto = Map.empty, boolProto = Map.empty \<rparr>"

section \<open>The call on a store of arrays\<close>

text \<open>
  The same lines of the source with the arrays as mutable objects: the array
  \<open>objects\<close> and every array the call allocates live in a store, addressed by their
  index; the \<open>Map\<close> and the result hold addresses, and \<open>push\<close> writes to the store.
  The caller's other objects are read through the heap, as before; the source has no
  statement that writes to one.

  The loop \<open>for (const object of objects)\<close> asks the array for its next element on each
  round until the index reaches the array's current length. The fuel bounds the number
  of rounds; \<open>None\<close> is a loop that has not ended within it.
\<close>

type_synonym arrays = "jsval list list"

definition newArray :: "arrays \<Rightarrow> nat \<times> arrays" where
  "newArray st = (length st, st @ [[]])"

definition pushAt :: "arrays \<Rightarrow> nat \<Rightarrow> jsval \<Rightarrow> arrays" where
  "pushAt st a x = st[a := st ! a @ [x]]"

fun iterate ::
  "nat \<Rightarrow> (jsval \<Rightarrow> error + jsval) \<Rightarrow> nat \<Rightarrow> nat \<Rightarrow> nat jsmap \<Rightarrow> arrays \<Rightarrow>
   ((error + nat jsmap) \<times> arrays) option" where
  "iterate 0 sel objects i groupedObjects st = None"
| "iterate (Suc fuel) sel objects i groupedObjects st =
     (if i < length (st ! objects) then
        (case sel (st ! objects ! i) of
           Inl e \<Rightarrow> Some (Inl e, st)
         | Inr groupName \<Rightarrow>
             (case (if \<not> has groupedObjects groupName
                    then (set_entry groupedObjects groupName (fst (newArray st)), snd (newArray st))
                    else (groupedObjects, st)) of
                (m, st1) \<Rightarrow>
                  (case get m groupName of
                     None \<Rightarrow> Some (Inl TypeError, st1)
                   | Some a \<Rightarrow>
                       iterate fuel sel objects (Suc i) m (pushAt st1 a (st ! objects ! i)))))
      else Some (Inr groupedObjects, st))"

text \<open>An \<open>objects\<close> that is no array of the store is not iterable: a TypeError.\<close>

definition groupByS ::
  "nat \<Rightarrow> heap \<Rightarrow> arrays \<Rightarrow> nat \<Rightarrow> property \<Rightarrow> ((error + nat jsobject) \<times> arrays) option" where
  "groupByS fuel h st objects property =
     (if length st \<le> objects then Some (Inl TypeError, st)
      else
        (case iterate fuel (keySelector h property) objects 0 [] st of
           None \<Rightarrow> None
         | Some (Inl e, st') \<Rightarrow> Some (Inl e, st')
         | Some (Inr groupedObjects, st') \<Rightarrow>
             (case array_sort h (map fst groupedObjects) of
                Inl e \<Rightarrow> Some (Inl e, st')
              | Inr sortedKeys \<Rightarrow>
                  (case fill h groupedObjects sortedKeys [] of
                     Inl e \<Rightarrow> Some (Inl e, st')
                   | Inr result \<Rightarrow> Some (Inr result, st')))))"

text \<open>What a caller reads from an outcome: the error, or the result with its arrays' contents.\<close>

definition contents :: "arrays \<Rightarrow> nat jsobject \<Rightarrow> jsval list jsobject" where
  "contents st obj = map (\<lambda>p. (fst p, map_option (\<lambda>a. st ! a) (snd p))) obj"

definition outcome :: "(error + nat jsobject) \<times> arrays \<Rightarrow> error + jsval list jsobject" where
  "outcome r = (case fst r of Inl e \<Rightarrow> Inl e | Inr obj \<Rightarrow> Inr (contents (snd r) obj))"

text \<open>The \<open>Map\<close> of addresses read through the store.\<close>

definition view :: "arrays \<Rightarrow> nat jsmap \<Rightarrow> jsval list jsmap" where
  "view st m = map (\<lambda>p. (fst p, st ! snd p)) m"

text \<open>
  What holds between rounds of the loop: the arrays of the store at the call are
  untouched, and the \<open>Map\<close>'s values are distinct addresses of arrays allocated since.
\<close>

definition loopInv :: "arrays \<Rightarrow> nat jsmap \<Rightarrow> arrays \<Rightarrow> bool" where
  "loopInv st0 m st \<longleftrightarrow>
     take (length st0) st = st0 \<and> length st0 \<le> length st \<and>
     distinct (map fst m) \<and> distinct (map snd m) \<and>
     (\<forall>a \<in> snd ` set m. length st0 \<le> a \<and> a < length st)"

definition teamStore :: arrays where
  "teamStore = [[Num 7], [Ref 0, Ref 1, Ref 2]]"

definition protoHeap :: heap where
  "protoHeap = plainHeap (\<lambda>a. if a = 0 then [''k'' \<mapsto> Str ''__proto__''] else [''k'' \<mapsto> Str ''a''])"


section \<open>The accumulation loop in closed form\<close>

lemma set_firstSeen [simp]: "set (firstSeen ks) = set ks"
  by (induction ks) auto

lemma distinct_firstSeen [simp]: "distinct (firstSeen ks)"
  by (induction ks) auto

lemma firstSeen_snoc:
  "firstSeen (ks @ [k]) = (if k \<in> set ks then firstSeen ks else firstSeen ks @ [k])"
  by (induction ks) auto

lemma filter_firstSeen: "filter P (firstSeen ks) = firstSeen (filter P ks)"
proof (induction ks)
  case Nil
  then show ?case by simp
next
  case (Cons a ks)
  have c: "filter P (filter (\<lambda>k'. k' \<noteq> a) (firstSeen ks)) =
           filter (\<lambda>k'. k' \<noteq> a) (filter P (firstSeen ks))"
    by (simp add: conj_commute)
  show ?case
  proof (cases "P a")
    case True
    then show ?thesis using Cons c by simp
  next
    case False
    then have "filter (\<lambda>k'. k' \<noteq> a) (filter P (firstSeen ks)) = filter P (firstSeen ks)"
      by (intro filter_True) auto
    then show ?thesis using False Cons c by simp
  qed
qed

lemma firstSeen_distinct: "distinct ks \<Longrightarrow> firstSeen ks = ks"
  by (induction ks) (auto simp: filter_id_conv)

lemma sorted_firstSeen: "sorted ks \<Longrightarrow> sorted_wrt (<) (firstSeen ks)"
  by (simp add: strict_sorted_iff filter_firstSeen) (induction ks, auto intro: sorted_wrt_filter)

lemma selected_snoc:
  "selected sel (S @ [x]) = selected sel S @ (case sel x of Inl e \<Rightarrow> [] | Inr k \<Rightarrow> [k])"
  by (simp add: selected_def)

lemma set_selected: "set (selected sel S) = {k. \<exists>r \<in> set S. sel r = Inr k}"
  by (induction S) (auto simp: selected_def split: sum.splits)

lemma groupOf_snoc:
  "groupOf sel (S @ [x]) k = groupOf sel S k @ (if sel x = Inr k then [x] else [])"
  by (simp add: groupOf_def)

lemma groupOf_empty_iff: "groupOf sel S k = [] \<longleftrightarrow> k \<notin> set (selected sel S)"
  by (auto simp: groupOf_def set_selected filter_empty_conv)

lemma set_entry_absent:
  "k \<notin> fst ` set m \<Longrightarrow> set_entry m k v = m @ [(k, v)]"
  by (induction m) auto

lemma set_entry_snoc:
  "k \<notin> fst ` set m \<Longrightarrow> set_entry (m @ [(k, v)]) k w = m @ [(k, w)]"
  by (induction m) auto

lemma set_entry_map:
  "distinct ks \<Longrightarrow> k \<in> set ks \<Longrightarrow>
   set_entry (map (\<lambda>k'. (k', f k')) ks) k v = map (\<lambda>k'. (k', if k' = k then v else f k')) ks"
  by (induction ks) auto

lemma map_of_graph:
  "map_of (map (\<lambda>k'. (k', f k')) ks) k = (if k \<in> set ks then Some (f k) else None)"
  by (induction ks) auto

lemma accumulate_append:
  "accumulate sel (xs @ ys) m =
     (case accumulate sel xs m of Inl e \<Rightarrow> Inl e | Inr m' \<Rightarrow> accumulate sel ys m')"
  by (induction xs arbitrary: m) (auto split: sum.splits)

lemma accumulate_step:
  assumes "sel x = Inr k"
  shows "accumulate sel [x] (grouped sel S) = Inr (grouped sel (S @ [x]))"
proof (cases "k \<in> set (selected sel S)")
  case True
  then have h: "has (grouped sel S) k"
    by (simp add: has_def grouped_def comp_def)
  have g: "get (grouped sel S) k = Some (groupOf sel S k)"
    using True by (simp add: get_def grouped_def map_of_graph)
  have "set_entry (grouped sel S) k (groupOf sel S k @ [x]) = grouped sel (S @ [x])"
    using True assms
    by (auto simp: grouped_def set_entry_map selected_snoc firstSeen_snoc groupOf_snoc)
  then show ?thesis using h g assms by (simp add: push_def)
next
  case False
  then have h: "\<not> has (grouped sel S) k"
    by (simp add: has_def grouped_def comp_def)
  have a: "set_entry (grouped sel S) k [] = grouped sel S @ [(k, [])]"
    using False by (intro set_entry_absent) (auto simp: grouped_def)
  have g: "get (grouped sel S @ [(k, [])]) k = Some []"
    using False by (simp add: get_def grouped_def map_of_graph map_add_def)
  have e: "set_entry (grouped sel S @ [(k, [])]) k [x] = grouped sel S @ [(k, [x])]"
    using False by (intro set_entry_snoc) (auto simp: grouped_def)
  have "grouped sel S @ [(k, [x])] = grouped sel (S @ [x])"
    using False assms groupOf_empty_iff [of sel S k]
    by (auto simp: grouped_def selected_snoc firstSeen_snoc groupOf_snoc)
  then show ?thesis using h a g e assms by (simp add: push_def)
qed

lemma accumulate_grouped:
  "\<forall>r \<in> set S. \<exists>k. sel r = Inr k \<Longrightarrow> accumulate sel S [] = Inr (grouped sel S)"
proof (induction S rule: rev_induct)
  case Nil
  then show ?case by (simp add: grouped_def selected_def)
next
  case (snoc x S)
  then obtain k where k: "sel x = Inr k" by auto
  from snoc have "accumulate sel S [] = Inr (grouped sel S)" by simp
  then show ?case using k accumulate_step [of sel x k S] by (simp add: accumulate_append)
qed

lemma accumulate_Inr_selected:
  "accumulate sel S m = Inr m' \<Longrightarrow> \<forall>r \<in> set S. \<exists>k. sel r = Inr k"
  by (induction S arbitrary: m) (auto split: sum.splits)

section \<open>Filling the result in closed form\<close>

lemma setProp_absent:
  "k \<notin> fst ` set obj \<Longrightarrow> setProp obj k v = obj @ [(k, v)]"
  by (induction obj) auto

lemma map_of_setProp: "map_of (setProp obj k v) = (map_of obj)(k \<mapsto> v)"
  by (induction obj) (auto simp: fun_eq_iff)

lemma fst_setProp_present:
  "k \<in> fst ` set obj \<Longrightarrow> map fst (setProp obj k v) = map fst obj"
  by (induction obj) (force simp: image_iff)+

lemma fst_setProp:
  "map fst (setProp obj k v) = (if k \<in> fst ` set obj then map fst obj else map fst obj @ [k])"
  by (simp add: fst_setProp_present setProp_absent)

lemma distinct_setProp:
  "distinct (map fst obj) \<Longrightarrow> distinct (map fst (setProp obj k v))"
  by (simp add: fst_setProp)

lemma fill_append:
  "fillNames h m (ks @ ks') obj = fillNames h m ks' (fillNames h m ks obj)"
  by (induction ks arbitrary: obj) auto

lemma distinct_fill:
  "distinct (map fst obj) \<Longrightarrow> distinct (map fst (fillNames h m ks obj))"
  by (induction ks arbitrary: obj) (auto simp: distinct_setProp assign_def)

text \<open>The names that convert to \<open>__proto__\<close> leave no trace in the own properties.\<close>

lemma fill_filter:
  "fillNames h m ks obj = fillNames h m (filter (\<lambda>k. str h k \<noteq> ''__proto__'') ks) obj"
  by (induction ks arbitrary: obj) (auto simp: assign_def)

lemma set_fst_fill:
  "\<forall>k \<in> set ks. str h k \<noteq> ''__proto__'' \<Longrightarrow>
   set (map fst (fillNames h m ks obj)) = set (map fst obj) \<union> str h ` set ks"
proof (induction ks arbitrary: obj)
  case Nil
  then show ?case by simp
next
  case (Cons k ks)
  have "assign obj (str h k) (get m k) = setProp obj (str h k) (get m k)"
    using Cons.prems by (simp add: assign_def)
  moreover have "set (map fst (setProp obj (str h k) (get m k))) =
                 insert (str h k) (set (map fst obj))"
    by (auto simp: fst_setProp)
  ultimately show ?case
    using Cons.IH [of "setProp obj (str h k) (get m k)"] Cons.prems by auto
qed

text \<open>The last key with a given string form decides the value of that property.\<close>

lemma map_of_fill:
  "\<forall>k \<in> set ks. str h k \<noteq> ''__proto__'' \<Longrightarrow>
   map_of (fillNames h m ks obj) name =
     (case filter (\<lambda>k. str h k = name) (rev ks) of
        [] \<Rightarrow> map_of obj name
      | k # _ \<Rightarrow> Some (get m k))"
proof (induction ks arbitrary: obj rule: rev_induct)
  case Nil
  then show ?case by simp
next
  case (snoc k ks)
  then show ?case by (simp add: fill_append map_of_setProp assign_def)
qed

lemma fill_distinct:
  "distinct (map fst obj @ map (str h) ks) \<Longrightarrow>
   \<forall>k \<in> set ks. str h k \<noteq> ''__proto__'' \<Longrightarrow>
   fillNames h m ks obj = obj @ map (\<lambda>k. (str h k, get m k)) ks"
proof (induction ks arbitrary: obj)
  case Nil
  then show ?case by simp
next
  case (Cons k ks)
  have a: "assign obj (str h k) (get m k) = obj @ [(str h k, get m k)]"
    using Cons.prems by (simp add: assign_def setProp_absent)
  have "distinct (map fst (obj @ [(str h k, get m k)]) @ map (str h) ks)"
    using Cons.prems by auto
  from Cons.IH [OF this] a Cons.prems(2) show ?case by simp
qed

lemma get_grouped:
  "get (grouped sel S) k = (if k \<in> set (selected sel S) then Some (groupOf sel S k) else None)"
  by (simp add: get_def grouped_def map_of_graph)

lemma fst_grouped: "map fst (grouped sel S) = firstSeen (selected sel S)"
  by (simp add: grouped_def comp_def)

lemma set_sortNames [simp]: "set (sortNames h xs) = set xs"
  by (auto simp: sortNames_def)

lemma mset_sortNames [simp]: "mset (sortNames h xs) = mset xs"
  by (simp add: sortNames_def)

lemma distinct_sortNames [simp]: "distinct (sortNames h xs) = distinct xs"
  by (rule mset_eq_imp_distinct_iff) simp


section \<open>When sorting and filling throw\<close>

lemma toString_Inl: "toString h k = Inl e \<Longrightarrow> e = TypeError"
  by (cases k) (auto split: option.splits)

lemma converts_iff: "converts h k \<longleftrightarrow> (\<exists>s. toString h k = Inr s)"
  by (cases "toString h k") (simp_all add: converts_def)

lemma not_converts_iff: "\<not> converts h k \<longleftrightarrow> toString h k = Inl TypeError"
  by (cases "toString h k") (auto simp: converts_def dest: toString_Inl)

lemma converts_str: "converts h k \<Longrightarrow> toString h k = Inr (str h k)"
  by (cases "toString h k") (simp_all add: converts_def str_def)

lemma str_Inr: "toString h k = Inr s \<Longrightarrow> str h k = s"
  by (simp add: str_def)

lemma str_eq_iff: "converts h k \<Longrightarrow> str h k = s \<longleftrightarrow> toString h k = Inr s"
  by (cases "toString h k") (simp_all add: converts_def str_def)

lemma str_Undefined [simp]: "str h Undefined = ''undefined''"
  by (simp add: str_def)

lemma converts_Undefined [simp]: "converts h Undefined"
  by (simp add: converts_def)

lemma strings_converts:
  "\<forall>k \<in> set xs. converts h k \<Longrightarrow> strings h xs = Inr (map (\<lambda>x. (str h x, x)) xs)"
  by (induction xs) (simp_all add: converts_str)

lemma strings_Inl:
  "k \<in> set xs \<Longrightarrow> \<not> converts h k \<Longrightarrow> strings h xs = Inl TypeError"
proof (induction xs)
  case Nil
  then show ?case by simp
next
  case (Cons x xs)
  show ?case
  proof (cases "converts h x")
    case True
    then have "k \<in> set xs" using Cons.prems by auto
    from Cons.IH [OF this Cons.prems(2)] True show ?thesis by (simp add: converts_str)
  next
    case False
    then show ?thesis by (simp add: not_converts_iff)
  qed
qed

lemma insort_key_map:
  "insort_key f (g x) (map g xs) = map g (insort_key (\<lambda>y. f (g y)) x xs)"
  by (induction xs) auto

lemma sort_key_map: "sort_key f (map g xs) = map g (sort_key (\<lambda>y. f (g y)) xs)"
  by (induction xs) (auto simp: insort_key_map)

lemma sort_key_short:
  assumes "length xs < 2"
  shows "sort_key f xs = xs"
proof (cases xs)
  case Nil
  then show ?thesis by simp
next
  case (Cons x ys)
  then have "ys = []" using assms by simp
  then show ?thesis using Cons by simp
qed

lemma array_sort_converts:
  assumes "\<forall>k \<in> set xs. converts h k"
  shows "array_sort h xs = Inr (sortNames h xs)"
proof -
  let ?items = "filter (\<lambda>x. x \<noteq> Undefined) xs"
  have c: "\<forall>k \<in> set ?items. converts h k" using assms by simp
  have "map snd (sort_key fst (map (\<lambda>x. (str h x, x)) ?items)) = sort_key (str h) ?items"
    by (simp add: sort_key_map comp_def)
  then show ?thesis
    by (simp add: array_sort_def sortNames_def Let_def strings_converts [OF c] sort_key_short)
qed

text \<open>What the sort returns is a rearrangement of the keys.\<close>

lemma array_sort_mset: "array_sort h xs = Inr ys \<Longrightarrow> mset ys = mset xs"
proof -
  assume a: "array_sort h xs = Inr ys"
  let ?items = "filter (\<lambda>x. x \<noteq> Undefined) xs"
  let ?undefs = "filter (\<lambda>x. x = Undefined) xs"
  have p: "mset ?items + mset ?undefs = mset xs"
    by (induction xs) simp_all
  show ?thesis
  proof (cases "length ?items < 2")
    case True
    then have "ys = ?items @ ?undefs" using a by (simp add: array_sort_def Let_def)
    then show ?thesis using p by simp
  next
    case False
    show ?thesis
    proof (cases "\<forall>k \<in> set ?items. converts h k")
      case True
      from strings_converts [OF this] False a
      have "ys = map snd (sort_key fst (map (\<lambda>x. (str h x, x)) ?items)) @ ?undefs"
        by (simp add: array_sort_def Let_def)
      then have "ys = sort_key (str h) ?items @ ?undefs"
        by (simp add: sort_key_map comp_def)
      then show ?thesis using p by simp
    next
      case c: False
      then obtain k where "k \<in> set ?items" "\<not> converts h k" by blast
      from strings_Inl [OF this] False a show ?thesis
        by (simp add: array_sort_def Let_def)
    qed
  qed
qed

lemma array_sort_set: "array_sort h xs = Inr ys \<Longrightarrow> set ys = set xs"
  by (drule array_sort_mset) (rule mset_eq_setD)

lemma array_sort_Inl: "array_sort h xs = Inl e \<Longrightarrow> e = TypeError \<and> (\<exists>k \<in> set xs. \<not> converts h k)"
proof -
  assume a: "array_sort h xs = Inl e"
  let ?items = "filter (\<lambda>x. x \<noteq> Undefined) xs"
  have n: "\<not> (\<forall>k \<in> set xs. converts h k)"
    using a array_sort_converts [of xs h] by auto
  then obtain k where k: "k \<in> set xs" "\<not> converts h k" by blast
  then have "k \<in> set ?items" by (cases k) auto
  from strings_Inl [OF this k(2)] a have "e = TypeError"
    by (simp add: array_sort_def Let_def split: if_splits)
  then show ?thesis using k by blast
qed

lemma fill_converts:
  "\<forall>k \<in> set ks. converts h k \<Longrightarrow> fill h m ks obj = Inr (fillNames h m ks obj)"
  by (induction ks arbitrary: obj) (simp_all add: converts_str)

lemma fill_Inl:
  "fill h m ks obj = Inl e \<Longrightarrow> e = TypeError \<and> (\<exists>k \<in> set ks. \<not> converts h k)"
proof (induction ks arbitrary: obj)
  case Nil
  then show ?case by simp
next
  case (Cons k ks)
  show ?case
  proof (cases "toString h k")
    case (Inl e')
    then have "e = TypeError" using Cons.prems toString_Inl [OF Inl] by simp
    moreover have "\<not> converts h k" using Inl by (simp add: converts_def)
    ultimately show ?thesis by simp
  next
    case (Inr s)
    then have "fill h m ks (assign obj s (get m k)) = Inl e" using Cons.prems by simp
    from Cons.IH [OF this] show ?thesis by auto
  qed
qed

lemma fill_Inr_converts:
  "fill h m ks obj = Inr res \<Longrightarrow> \<forall>k \<in> set ks. converts h k"
proof (induction ks arbitrary: obj)
  case Nil
  then show ?case by simp
next
  case (Cons k ks)
  show ?case
  proof (cases "toString h k")
    case (Inl e')
    then show ?thesis using Cons.prems by simp
  next
    case (Inr s)
    then have "fill h m ks (assign obj s (get m k)) = Inr res" using Cons.prems by simp
    from Cons.IH [OF this] Inr show ?thesis by (simp add: converts_def)
  qed
qed

text \<open>
  \<open>groupBy\<close> returns exactly when the selector returns on every record and every group
  name converts to a string.
\<close>

lemma groupBy_Inr:
  assumes "\<forall>r \<in> set S. \<exists>k. keySelector h p r = Inr k"
    and "\<forall>k \<in> set (selected (keySelector h p) S). converts h k"
  shows "groupBy h S p =
     Inr (fillNames h (grouped (keySelector h p) S)
            (sortNames h (firstSeen (selected (keySelector h p) S))) [])"
proof -
  let ?K = "firstSeen (selected (keySelector h p) S)"
  have c: "\<forall>k \<in> set ?K. converts h k" using assms(2) by simp
  have c': "\<forall>k \<in> set (sortNames h ?K). converts h k" using assms(2) by simp
  show ?thesis
    by (simp add: groupBy_def accumulate_grouped [OF assms(1)] fst_grouped
        array_sort_converts [OF c] fill_converts [OF c'])
qed

lemma groupBy_Inr_D:
  "groupBy h S p = Inr res \<Longrightarrow> \<forall>r \<in> set S. \<exists>k. keySelector h p r = Inr k"
  by (auto simp: groupBy_def split: sum.splits dest: accumulate_Inr_selected)

lemma groupBy_Inr_converts:
  assumes "groupBy h S p = Inr res"
  shows "\<forall>k \<in> set (selected (keySelector h p) S). converts h k"
proof -
  let ?sel = "keySelector h p"
  have a: "accumulate ?sel S [] = Inr (grouped ?sel S)"
    using groupBy_Inr_D [OF assms] by (rule accumulate_grouped)
  then obtain ks where ks: "array_sort h (firstSeen (selected ?sel S)) = Inr ks"
    and f: "fill h (grouped ?sel S) ks [] = Inr res"
    using assms by (auto simp: groupBy_def fst_grouped split: sum.splits)
  from fill_Inr_converts [OF f] array_sort_set [OF ks] show ?thesis by simp
qed

lemma groupBy_Inr_eq:
  assumes "groupBy h S p = Inr res"
  shows "res = fillNames h (grouped (keySelector h p) S)
            (sortNames h (firstSeen (selected (keySelector h p) S))) []"
  using groupBy_Inr [OF groupBy_Inr_D [OF assms] groupBy_Inr_converts [OF assms]] assms by simp

lemma assigned_no_proto: "\<forall>k \<in> set (assigned h ks). str h k \<noteq> ''__proto__''"
  by (simp add: assigned_def)

lemma set_assigned: "set (assigned h ks) = {k \<in> set ks. str h k \<noteq> ''__proto__''}"
  by (auto simp: assigned_def)

lemma distinct_assigned: "distinct ks \<Longrightarrow> distinct (assigned h ks)"
  by (simp add: assigned_def)

lemma groupBy_Inr_assigned:
  assumes "groupBy h S p = Inr res"
  shows "res = fillNames h (grouped (keySelector h p) S)
            (assigned h (firstSeen (selected (keySelector h p) S))) []"
  unfolding assigned_def using groupBy_Inr_eq [OF assms] fill_filter by metis

section \<open>What the result holds\<close>

lemma result_distinct: "groupBy h S p = Inr res \<Longrightarrow> distinct (map fst res)"
  by (drule groupBy_Inr_eq) (simp add: distinct_fill)

lemma result_lookup:
  assumes "groupBy h S p = Inr res"
  shows "map_of res name =
     (case filter (\<lambda>k. str h k = name)
             (rev (assigned h (firstSeen (selected (keySelector h p) S)))) of
        [] \<Rightarrow> None
      | k # _ \<Rightarrow> Some (Some (groupOf (keySelector h p) S k)))"
proof -
  let ?ks = "assigned h (firstSeen (selected (keySelector h p) S))"
  let ?f = "filter (\<lambda>k. str h k = name) (rev ?ks)"
  show ?thesis
  proof (cases ?f)
    case Nil
    then show ?thesis
      by (simp add: groupBy_Inr_assigned [OF assms] map_of_fill [OF assigned_no_proto])
  next
    case (Cons k ys)
    then have "k \<in> set ?f" by simp
    then have "k \<in> set (selected (keySelector h p) S)" by (simp add: set_assigned)
    then show ?thesis using Cons
      by (simp add: groupBy_Inr_assigned [OF assms] map_of_fill [OF assigned_no_proto] get_grouped)
  qed
qed

lemma result_keys:
  "groupBy h S p = Inr res \<Longrightarrow>
   set (map fst res) = str h ` set (assigned h (firstSeen (selected (keySelector h p) S)))"
  by (drule groupBy_Inr_assigned) (simp add: set_fst_fill [OF assigned_no_proto] del: set_map)

lemma hd_filter_rev: "filter P xs \<noteq> [] \<Longrightarrow> filter P (rev xs) = last (filter P xs) # rev (butlast (filter P xs))"
  by (metis append_butlast_last_id rev_filter rev_eq_Cons_iff rev_rev_ident)

lemma result_entry:
  assumes "groupBy h S p = Inr res" and "(name, v) \<in> set res"
  shows "\<exists>k. k \<in> set (selected (keySelector h p) S) \<and> str h k = name \<and>
             v = Some (groupOf (keySelector h p) S k) \<and>
             k = last (filter (\<lambda>k. str h k = name)
                         (assigned h (firstSeen (selected (keySelector h p) S))))"
proof -
  let ?ks = "assigned h (firstSeen (selected (keySelector h p) S))"
  let ?f = "filter (\<lambda>k. str h k = name) (rev ?ks)"
  have m: "map_of res name = Some v"
    using assms by (simp add: result_distinct)
  show ?thesis
  proof (cases ?f)
    case Nil
    then show ?thesis using m result_lookup [OF assms(1), of name] by simp
  next
    case (Cons k ys)
    then have "k \<in> set ?f" by simp
    then have a: "k \<in> set (selected (keySelector h p) S) \<and> str h k = name"
      by (simp add: set_assigned)
    have b: "v = Some (groupOf (keySelector h p) S k)"
      using m Cons result_lookup [OF assms(1), of name] by simp
    have "filter (\<lambda>k. str h k = name) ?ks \<noteq> []"
      using Cons by (metis list.discI rev_filter rev_is_Nil_conv)
    from hd_filter_rev [OF this] Cons
    have "k = last (filter (\<lambda>k. str h k = name) ?ks)" by simp
    with a b show ?thesis by blast
  qed
qed

text \<open>
  C4: within each group of the result the records stand in their input order: a group
  is the input filtered by one group name, the name whose string is the group's key.
\<close>

theorem groupBy_stable:
  assumes "groupBy h S p = Inr res" and "(name, v) \<in> set res"
  shows "\<exists>k. k \<in> set (selected (keySelector h p) S) \<and> toString h k = Inr name \<and>
             v = Some (filter (\<lambda>r. keySelector h p r = Inr k) S)"
proof -
  from result_entry [OF assms] obtain k where
    k: "k \<in> set (selected (keySelector h p) S)" "str h k = name"
      "v = Some (groupOf (keySelector h p) S k)"
    by blast
  have "converts h k" using groupBy_Inr_converts [OF assms(1)] k(1) by blast
  then have "toString h k = Inr name" using k(2) by (simp add: converts_str)
  then show ?thesis using k by (auto simp: groupOf_def)
qed

theorem groupBy_stable_witness:
  "groupBy teamHeap [Ref 0, Ref 1, Ref 2] (NotCallable (Str ''team'')) =
     Inr [(''blue'', Some [Ref 0, Ref 2]), (''red'', Some [Ref 1])] \<and>
   (\<exists>k. k \<in> set (selected (keySelector teamHeap (NotCallable (Str ''team''))) [Ref 0, Ref 1, Ref 2]) \<and>
        toString teamHeap k = Inr ''blue'' \<and>
        Some [Ref 0, Ref 2] =
          Some (filter (\<lambda>r. keySelector teamHeap (NotCallable (Str ''team'')) r = Inr k)
                  [Ref 0, Ref 1, Ref 2]))"
proof -
  have e: "groupBy teamHeap [Ref 0, Ref 1, Ref 2] (NotCallable (Str ''team'')) =
     Inr [(''blue'', Some [Ref 0, Ref 2]), (''red'', Some [Ref 1])]"
    by code_simp
  have m: "(''blue'', Some [Ref 0, Ref 2]) \<in> set [(''blue'', Some [Ref 0, Ref 2]), (''red'', Some [Ref 1])]"
    by simp
  from groupBy_stable [OF e m] e show ?thesis by blast
qed


section \<open>Failure and the non-callable property\<close>

lemma keySelector_NotCallable [simp]:
  "keySelector h (NotCallable v) r = getProp h r v"
  by (simp add: keySelector_def)

lemma getProp_Str: "toString h v = Inr name \<Longrightarrow> getProp h r v = getProp h r (Str name)"
  by (cases r) simp_all

lemma getProp_missing:
  "toString h name = Inr key \<Longrightarrow> props h a key = None \<Longrightarrow> getProp h (Ref a) name = Inr Undefined"
  by (simp add: lookupOr_def)

lemma lookupOr_Inl: "lookupOr tbl k = Inl e \<longleftrightarrow> tbl k = Some (Inl e)"
  by (cases "tbl k") (simp_all add: lookupOr_def)

lemma getProp_Ref_Inl:
  "getProp h (Ref a) v = Inl e \<longleftrightarrow>
     toString h v = Inl e \<or> (\<exists>name. toString h v = Inr name \<and> props h a name = Some (Inl e))"
  by (cases "toString h v") (simp_all add: lookupOr_Inl)

lemma getProp_Inl:
  assumes "getProp h r v = Inl e"
  shows "(r = Undefined \<or> r = Null) \<and> e = TypeError \<or> toString h v = Inl e \<or>
     (\<exists>name. toString h v = Inr name \<and>
        ((\<exists>a. r = Ref a \<and> props h a name = Some (Inl e)) \<or>
         (\<exists>s. r = Str s \<and> strProto h name = Some (Inl e)) \<or>
         (\<exists>n. r = Num n \<and> numProto h name = Some (Inl e)) \<or>
         (\<exists>b. r = Bool b \<and> boolProto h name = Some (Inl e))))"
proof (cases "toString h v")
  case (Inl e')
  then show ?thesis using assms by (cases r) simp_all
next
  case (Inr name)
  then show ?thesis using assms by (cases r) (simp_all add: lookupOr_Inl split: if_splits)
qed

lemma map_of_set_entry: "map_of (set_entry m k v) = (map_of m)(k \<mapsto> v)"
  by (induction m) (auto simp: fun_eq_iff)

lemma push_ok:
  "\<exists>m'. push (if \<not> has m k then set_entry m k [] else m) k x = Inr m'"
proof (cases "has m k")
  case True
  then obtain v where "map_of m k = Some v"
    by (cases "map_of m k") (auto simp: has_def map_of_eq_None_iff)
  then show ?thesis using True by (simp add: push_def get_def)
next
  case False
  then show ?thesis by (simp add: push_def get_def map_of_set_entry)
qed

lemma accumulate_Inl:
  "accumulate sel S m = Inl e \<Longrightarrow> \<exists>r \<in> set S. sel r = Inl e"
proof (induction S arbitrary: m)
  case Nil
  then show ?case by simp
next
  case (Cons x S)
  show ?case
  proof (cases "sel x")
    case (Inl e')
    then show ?thesis using Cons.prems by simp
  next
    case (Inr k)
    obtain m' where m': "push (if \<not> has m k then set_entry m k [] else m) k x = Inr m'"
      using push_ok by blast
    then have "accumulate sel S m' = Inl e" using Cons.prems Inr by simp
    from Cons.IH [OF this] show ?thesis by auto
  qed
qed

text \<open>
  A call that throws passes on what the selector threw on some record, or the
  TypeError of a group name that has no string.
\<close>

lemma groupBy_Inl:
  assumes "groupBy h S p = Inl e"
  shows "(\<exists>r \<in> set S. keySelector h p r = Inl e) \<or>
         e = TypeError \<and> (\<exists>k \<in> set (selected (keySelector h p) S). \<not> converts h k)"
proof (cases "accumulate (keySelector h p) S []")
  case (Inl e')
  then have "e' = e" using assms by (simp add: groupBy_def)
  then show ?thesis using accumulate_Inl [OF Inl] by blast
next
  case (Inr m)
  let ?sel = "keySelector h p"
  have "accumulate ?sel S [] = Inr (grouped ?sel S)"
    using accumulate_Inr_selected [OF Inr] by (rule accumulate_grouped)
  then have m: "m = grouped ?sel S" using Inr by simp
  show ?thesis
  proof (cases "array_sort h (firstSeen (selected ?sel S))")
    case e1: (Inl e')
    then have "e' = e" using assms Inr m by (simp add: groupBy_def fst_grouped)
    then show ?thesis using array_sort_Inl [OF e1] by simp
  next
    case ks: (Inr ks)
    then have "fill h (grouped ?sel S) ks [] = Inl e"
      using assms Inr m by (simp add: groupBy_def fst_grouped)
    from fill_Inl [OF this] array_sort_set [OF ks] show ?thesis by simp
  qed
qed

lemma groupBy_fails_iff:
  "(\<exists>e. groupBy h S p = Inl e) \<longleftrightarrow>
     (\<exists>r \<in> set S. \<exists>e. keySelector h p r = Inl e) \<or>
     (\<exists>k \<in> set (selected (keySelector h p) S). \<not> converts h k)"
proof
  assume "\<exists>e. groupBy h S p = Inl e"
  then obtain e where "groupBy h S p = Inl e" ..
  from groupBy_Inl [OF this] show
    "(\<exists>r \<in> set S. \<exists>e. keySelector h p r = Inl e) \<or>
     (\<exists>k \<in> set (selected (keySelector h p) S). \<not> converts h k)"
    by blast
next
  assume a: "(\<exists>r \<in> set S. \<exists>e. keySelector h p r = Inl e) \<or>
     (\<exists>k \<in> set (selected (keySelector h p) S). \<not> converts h k)"
  show "\<exists>e. groupBy h S p = Inl e"
  proof (cases "groupBy h S p")
    case (Inl e)
    then show ?thesis by blast
  next
    case (Inr res)
    from groupBy_Inr_D [OF Inr] groupBy_Inr_converts [OF Inr] a show ?thesis by force
  qed
qed

lemma unconverted_name:
  "(\<exists>k \<in> set (selected sel S). \<not> converts h k) \<longleftrightarrow>
   (\<exists>r \<in> set S. \<exists>k e. sel r = Inr k \<and> toString h k = Inl e)"
proof
  assume "\<exists>k \<in> set (selected sel S). \<not> converts h k"
  then obtain k r where "r \<in> set S" "sel r = Inr k" "\<not> converts h k"
    by (auto simp: set_selected)
  then show "\<exists>r \<in> set S. \<exists>k e. sel r = Inr k \<and> toString h k = Inl e"
    by (auto simp: not_converts_iff)
next
  assume "\<exists>r \<in> set S. \<exists>k e. sel r = Inr k \<and> toString h k = Inl e"
  then obtain r k e where r: "r \<in> set S" "sel r = Inr k" "toString h k = Inl e" by blast
  then have "k \<in> set (selected sel S)" by (auto simp: set_selected)
  moreover have "\<not> converts h k" using r(3) by (simp add: converts_def)
  ultimately show "\<exists>k \<in> set (selected sel S). \<not> converts h k" by blast
qed




lemma rev_assigned_Undefined:
  assumes "Undefined \<in> set ks"
  shows "\<exists>ys. rev (assigned h ks) = Undefined # ys"
proof -
  let ?u = "filter (\<lambda>x. x = Undefined) ks"
  have "?u \<noteq> []" using assms by (auto simp: filter_empty_conv)
  then have "rev ?u \<noteq> []" by simp
  then obtain z zs where z: "rev ?u = z # zs" by (cases "rev ?u") auto
  then have "z \<in> set (rev ?u)" by simp
  then have "z = Undefined" by simp
  then have "rev (sortNames h ks) = Undefined # zs @ rev (sort_key (str h) (filter (\<lambda>x. x \<noteq> Undefined) ks))"
    using z by (simp add: sortNames_def)
  then have "rev (assigned h ks) =
      Undefined # filter (\<lambda>k. str h k \<noteq> ''__proto__'')
        (zs @ rev (sort_key (str h) (filter (\<lambda>x. x \<noteq> Undefined) ks)))"
    unfolding assigned_def rev_filter by simp
  then show ?thesis by blast
qed

lemma undefined_entry:
  assumes "groupBy h S p = Inr res" and "Undefined \<in> set (selected (keySelector h p) S)"
  shows "map_of res ''undefined'' = Some (Some (groupOf (keySelector h p) S Undefined))"
proof -
  have "Undefined \<in> set (firstSeen (selected (keySelector h p) S))"
    using assms(2) by simp
  from rev_assigned_Undefined [OF this] obtain ys where
    "rev (assigned h (firstSeen (selected (keySelector h p) S))) = Undefined # ys"
    by blast
  then show ?thesis using result_lookup [OF assms(1), of "''undefined''"] by simp
qed

text \<open>
  C6: reading a field a record lacks does not fail: the read yields \<open>undefined\<close>, a
  group name like any other. Grouping by a field name returns exactly when every
  record either lacks the field or has a read that returns a name with a string, so a
  record that lacks the field never makes the call fail. In the result the property
  \<open>undefined\<close> is then the group of exactly the records the read yields \<open>undefined\<close>
  for, among them every object that lacks the field.
\<close>

theorem missing_field_groups_under_undefined:
  assumes "toString h name = Inr key"
  shows "(\<forall>a. props h a key = None \<longrightarrow> getProp h (Ref a) name = Inr Undefined) \<and>
     ((\<exists>res. groupBy h S (NotCallable name) = Inr res) \<longleftrightarrow>
        (\<forall>r \<in> set S. (\<exists>a. r = Ref a \<and> props h a key = None) \<or>
                       (\<exists>k s. getProp h r name = Inr k \<and> toString h k = Inr s))) \<and>
     (\<forall>res a. groupBy h S (NotCallable name) = Inr res \<and> Ref a \<in> set S \<and> props h a key = None \<longrightarrow>
        Ref a \<in> set (filter (\<lambda>r. getProp h r name = Inr Undefined) S) \<and>
        map_of res ''undefined'' = Some (Some (filter (\<lambda>r. getProp h r name = Inr Undefined) S)))"
proof (intro conjI allI impI)
  fix a assume "props h a key = None"
  with assms show "getProp h (Ref a) name = Inr Undefined" by (rule getProp_missing)
next
  let ?sel = "keySelector h (NotCallable name)"
  let ?ok = "\<lambda>r. \<exists>k s. getProp h r name = Inr k \<and> toString h k = Inr s"
  have lack: "?ok r" if "r = Ref a" "props h a key = None" for r a
    using that getProp_missing [OF assms, of a] by simp
  have "(\<exists>res. groupBy h S (NotCallable name) = Inr res) \<longleftrightarrow>
        \<not> (\<exists>e. groupBy h S (NotCallable name) = Inl e)"
    by (cases "groupBy h S (NotCallable name)") simp_all
  also have "\<dots> \<longleftrightarrow> \<not> ((\<exists>r \<in> set S. \<exists>e. getProp h r name = Inl e) \<or>
        (\<exists>r \<in> set S. \<exists>k e. getProp h r name = Inr k \<and> toString h k = Inl e))"
    using groupBy_fails_iff [of h S "NotCallable name"] unconverted_name [of ?sel S h]
    by simp
  also have "\<dots> \<longleftrightarrow> (\<forall>r \<in> set S. ?ok r)"
  proof -
    have "?ok r \<longleftrightarrow> \<not> ((\<exists>e. getProp h r name = Inl e) \<or>
        (\<exists>k e. getProp h r name = Inr k \<and> toString h k = Inl e))" for r
    proof (cases "getProp h r name")
      case (Inl e)
      then show ?thesis by simp
    next
      case (Inr k)
      then show ?thesis by (cases "toString h k") simp_all
    qed
    then show ?thesis by blast
  qed
  also have "\<dots> \<longleftrightarrow> (\<forall>r \<in> set S. (\<exists>a. r = Ref a \<and> props h a key = None) \<or> ?ok r)"
    using lack by blast
  finally show "(\<exists>res. groupBy h S (NotCallable name) = Inr res) \<longleftrightarrow>
        (\<forall>r \<in> set S. (\<exists>a. r = Ref a \<and> props h a key = None) \<or>
                       (\<exists>k s. getProp h r name = Inr k \<and> toString h k = Inr s))" .
next
  fix res a
  assume a: "groupBy h S (NotCallable name) = Inr res \<and> Ref a \<in> set S \<and> props h a key = None"
  then have g: "getProp h (Ref a) name = Inr Undefined"
    using getProp_missing [OF assms] by blast
  then show "Ref a \<in> set (filter (\<lambda>r. getProp h r name = Inr Undefined) S)"
    using a by simp
  have "\<exists>r \<in> set S. keySelector h (NotCallable name) r = Inr Undefined"
    using a g by (intro bexI [of _ "Ref a"]) (simp_all del: getProp.simps)
  then have "Undefined \<in> set (selected (keySelector h (NotCallable name)) S)"
    by (simp add: set_selected del: keySelector_NotCallable)
  from undefined_entry [OF _ this] a
  show "map_of res ''undefined'' = Some (Some (filter (\<lambda>r. getProp h r name = Inr Undefined) S))"
    by (simp add: groupOf_def)
qed

theorem missing_field_groups_under_undefined_witness:
  "toString fiveHeap (Str ''missing'') = Inr ''missing'' \<and>
   props fiveHeap 0 ''missing'' = None \<and>
   getProp fiveHeap (Ref 0) (Str ''missing'') = Inr Undefined \<and>
   (\<exists>res. groupBy fiveHeap [Ref 0] (NotCallable (Str ''missing'')) = Inr res) \<and>
   groupBy fiveHeap [Ref 0] (NotCallable (Str ''missing'')) = Inr [(''undefined'', Some [Ref 0])] \<and>
   map_of [(''undefined'', Some [Ref 0])] ''undefined'' =
     Some (Some (filter (\<lambda>r. getProp fiveHeap r (Str ''missing'') = Inr Undefined) [Ref 0]))"
proof -
  have n: "toString fiveHeap (Str ''missing'') = Inr ''missing''" by simp
  have p: "props fiveHeap 0 ''missing'' = None"
    by (simp add: fiveHeap_def plainHeap_def)
  have e: "groupBy fiveHeap [Ref 0] (NotCallable (Str ''missing'')) = Inr [(''undefined'', Some [Ref 0])]"
    by code_simp
  note t = missing_field_groups_under_undefined [OF n, of "[Ref 0]"]
  from t p have g: "getProp fiveHeap (Ref 0) (Str ''missing'') = Inr Undefined"
    by blast
  have "\<forall>r \<in> set [Ref 0]. (\<exists>a. r = Ref a \<and> props fiveHeap a ''missing'' = None) \<or>
          (\<exists>k s. getProp fiveHeap r (Str ''missing'') = Inr k \<and> toString fiveHeap k = Inr s)"
    using p by simp
  with t have r: "\<exists>res. groupBy fiveHeap [Ref 0] (NotCallable (Str ''missing'')) = Inr res"
    by blast
  have "groupBy fiveHeap [Ref 0] (NotCallable (Str ''missing'')) = Inr [(''undefined'', Some [Ref 0])] \<and>
        Ref 0 \<in> set [Ref 0] \<and> props fiveHeap 0 ''missing'' = None"
    using e p by simp
  with t have m: "map_of [(''undefined'', Some [Ref 0])] ''undefined'' =
     Some (Some (filter (\<lambda>r. getProp fiveHeap r (Str ''missing'') = Inr Undefined) [Ref 0]))"
    by blast
  from n p g r e m show ?thesis by blast
qed


section \<open>Group names with the same string\<close>

lemma filter_Undefined_distinct:
  "distinct xs \<Longrightarrow> filter (\<lambda>x. x = Undefined) xs = (if Undefined \<in> set xs then [Undefined] else [])"
  by (induction xs) (auto simp: filter_empty_conv)

text \<open>
  The names with a given string, in the order in which the sort leaves them: the order
  in which the \<open>Map\<close> holds them, the name \<open>undefined\<close> moved to the end.
\<close>

lemma sorted_names_with_string:
  assumes "distinct ks" and "name \<noteq> ''__proto__''"
  shows "filter (\<lambda>k. str h k = name) (assigned h ks) =
     filter (\<lambda>k. str h k = name) (filter (\<lambda>k. k \<noteq> Undefined) ks) @
     (if name = ''undefined'' \<and> Undefined \<in> set ks then [Undefined] else [])"
proof -
  let ?P = "\<lambda>k. str h k = name"
  have "filter ?P (assigned h ks) = filter ?P (sortNames h ks)"
    unfolding assigned_def filter_filter using assms(2) by (intro filter_cong) auto
  also have "\<dots> = filter ?P (sort_key (str h) (filter (\<lambda>k. k \<noteq> Undefined) ks)) @
                   filter ?P (filter (\<lambda>k. k = Undefined) ks)"
    by (simp add: sortNames_def)
  also have "filter ?P (sort_key (str h) (filter (\<lambda>k. k \<noteq> Undefined) ks)) =
             filter ?P (filter (\<lambda>k. k \<noteq> Undefined) ks)"
    by (rule sort_key_stable)
  also have "filter ?P (filter (\<lambda>k. k = Undefined) ks) =
             (if name = ''undefined'' \<and> Undefined \<in> set ks then [Undefined] else [])"
    using assms(1) by (auto simp: filter_Undefined_distinct)
  finally show ?thesis .
qed

lemma last_sorted_name:
  assumes "distinct ks" and "name \<noteq> ''__proto__''"
    and "filter (\<lambda>k. str h k = name) (assigned h ks) \<noteq> []"
  shows "last (filter (\<lambda>k. str h k = name) (assigned h ks)) =
     (if name = ''undefined'' \<and> Undefined \<in> set ks then Undefined
      else last (filter (\<lambda>k. str h k = name) ks))"
proof -
  note e = sorted_names_with_string [OF assms(1,2), of h]
  show ?thesis
  proof (cases "name = ''undefined'' \<and> Undefined \<in> set ks")
    case True
    show ?thesis unfolding e if_P [OF True] by simp
  next
    case False
    have f: "filter (\<lambda>k. str h k = name) (filter (\<lambda>k. k \<noteq> Undefined) ks) =
          filter (\<lambda>k. str h k = name) ks"
      unfolding filter_filter using False by (intro filter_cong) auto
    show ?thesis unfolding e f if_not_P [OF False] by simp
  qed
qed

lemma result_key_set:
  assumes "groupBy h S p = Inr res"
  shows "set (map fst res) =
     {name. name \<noteq> ''__proto__'' \<and>
            (\<exists>k \<in> set (selected (keySelector h p) S). toString h k = Inr name)}"
proof -
  let ?K = "set (selected (keySelector h p) S)"
  have c: "\<forall>k \<in> ?K. converts h k" using assms by (rule groupBy_Inr_converts)
  have "set (map fst res) = str h ` {k \<in> ?K. str h k \<noteq> ''__proto__''}"
    using result_keys [OF assms] by (simp add: set_assigned)
  also have "\<dots> = {name. name \<noteq> ''__proto__'' \<and> (\<exists>k \<in> ?K. toString h k = Inr name)}"
  proof (intro set_eqI iffI)
    fix name assume "name \<in> str h ` {k \<in> ?K. str h k \<noteq> ''__proto__''}"
    then obtain k where k: "k \<in> ?K" "str h k = name" "name \<noteq> ''__proto__''" by auto
    then have "toString h k = Inr name" using c by (simp add: converts_str)
    then show "name \<in> {name. name \<noteq> ''__proto__'' \<and> (\<exists>k \<in> ?K. toString h k = Inr name)}"
      using k by blast
  next
    fix name assume "name \<in> {name. name \<noteq> ''__proto__'' \<and> (\<exists>k \<in> ?K. toString h k = Inr name)}"
    then obtain k where k: "k \<in> ?K" "toString h k = Inr name" "name \<noteq> ''__proto__''" by auto
    then have "str h k = name" by (simp add: str_Inr)
    then show "name \<in> str h ` {k \<in> ?K. str h k \<noteq> ''__proto__''}"
      using k by blast
  qed
  finally show ?thesis .
qed

text \<open>The name whose group an entry of the result holds.\<close>

lemma result_winner:
  assumes "groupBy h S p = Inr res" and "(name, v) \<in> set res"
  shows "v = Some (groupOf (keySelector h p) S
           (if name = ''undefined'' \<and> Undefined \<in> set (selected (keySelector h p) S) then Undefined
            else last (filter (\<lambda>k. toString h k = Inr name)
                         (firstSeen (selected (keySelector h p) S)))))"
proof -
  let ?K = "firstSeen (selected (keySelector h p) S)"
  from result_entry [OF assms] obtain k where
    k: "k \<in> set (selected (keySelector h p) S)" "str h k = name"
      "v = Some (groupOf (keySelector h p) S k)"
      "k = last (filter (\<lambda>k. str h k = name) (assigned h ?K))"
    by blast
  have "name \<in> set (map fst res)" using assms(2) by force
  then have np: "name \<noteq> ''__proto__''" using result_key_set [OF assms(1)] by simp
  have "k \<in> set (filter (\<lambda>k. str h k = name) (assigned h ?K))"
    using k(1,2) np by (simp add: set_assigned)
  then have ne: "filter (\<lambda>k. str h k = name) (assigned h ?K) \<noteq> []" by force
  have c: "\<forall>k \<in> set ?K. converts h k"
    using groupBy_Inr_converts [OF assms(1)] by simp
  have "filter (\<lambda>k. str h k = name) ?K = filter (\<lambda>k. toString h k = Inr name) ?K"
    using c by (intro filter_cong) (auto simp: str_eq_iff)
  then have "k = (if name = ''undefined'' \<and> Undefined \<in> set ?K then Undefined
                  else last (filter (\<lambda>k. toString h k = Inr name) ?K))"
    using k(4) last_sorted_name [OF distinct_firstSeen np ne] by simp
  then show ?thesis using k(3) by simp
qed



section \<open>Records the result does not hold\<close>

text \<open>
  C1: the sizes of the groups do not always add up to the length of the input. Of the
  records \<open>{k: 1}\<close> and \<open>{k: '1'}\<close> grouped by \<open>k\<close>, the names 1 and \<open>'1'\<close> have the same
  string, line 37 assigns the property \<open>1\<close> twice, and the result holds one group of one
  record for an input of two: the first record is in no group.
\<close>

theorem group_sizes_failing_input:
  "selected (keySelector collideHeap (NotCallable (Str ''k''))) [Ref 0, Ref 1] = [Num 1, Str ''1''] \<and>
   groupBy collideHeap [Ref 0, Ref 1] (NotCallable (Str ''k'')) = Inr [(''1'', Some [Ref 1])] \<and>
   totalSize [(''1'', Some [Ref 1])] = 1 \<and> length [Ref 0 :: jsval, Ref 1] = 2"
proof -
  have "selected (keySelector collideHeap (NotCallable (Str ''k''))) [Ref 0, Ref 1] = [Num 1, Str ''1'']"
    by code_simp
  moreover have "groupBy collideHeap [Ref 0, Ref 1] (NotCallable (Str ''k'')) = Inr [(''1'', Some [Ref 1])]"
    by code_simp
  ultimately show ?thesis by (simp add: totalSize_def elems_def)
qed

text \<open>
  C2: a record is not always in the group of its name. Of the records \<open>{k: null}\<close> and
  \<open>{k: 'null'}\<close> grouped by \<open>k\<close>, the first has the group name \<open>null\<close>, whose string is
  the key \<open>null\<close>; the result's only entry, under that key, holds the second record
  alone, so the first record is in no group.
\<close>

theorem record_in_its_group_failing_input:
  "groupBy nullKeyHeap [Ref 0, Ref 1] (NotCallable (Str ''k'')) = Inr [(''null'', Some [Ref 1])] \<and>
   keySelector nullKeyHeap (NotCallable (Str ''k'')) (Ref 0) = Inr Null \<and>
   toString nullKeyHeap Null = Inr ''null'' \<and>
   Ref 0 \<notin> set (elems (Some [Ref 1]))"
proof -
  have "groupBy nullKeyHeap [Ref 0, Ref 1] (NotCallable (Str ''k'')) = Inr [(''null'', Some [Ref 1])]"
    by code_simp
  moreover have "keySelector nullKeyHeap (NotCallable (Str ''k'')) (Ref 0) = Inr Null"
    by code_simp
  ultimately show ?thesis by (simp add: elems_def)
qed


section \<open>The order of the keys\<close>

lemma fst_fill:
  "distinct (map fst obj) \<Longrightarrow> \<forall>k \<in> set ks. str h k \<noteq> ''__proto__'' \<Longrightarrow>
   map fst (fillNames h m ks obj) = firstSeen (map fst obj @ map (str h) ks)"
proof (induction ks rule: rev_induct)
  case Nil
  then show ?case by (simp add: firstSeen_distinct)
next
  case (snoc k ks)
  have np: "\<forall>k \<in> set ks. str h k \<noteq> ''__proto__''" using snoc.prems by simp
  have "set (map fst (fillNames h m ks obj)) = set (map fst obj @ map (str h) ks)"
    using set_fst_fill [OF np, of m obj] by simp
  then have mem: "str h k \<in> fst ` set (fillNames h m ks obj) \<longleftrightarrow>
                  str h k \<in> set (map fst obj @ map (str h) ks)"
    by simp
  have "firstSeen (map fst obj @ map (str h) (ks @ [k])) =
        firstSeen ((map fst obj @ map (str h) ks) @ [str h k])"
    by simp
  also have "\<dots> = (if str h k \<in> set (map fst obj @ map (str h) ks)
                    then firstSeen (map fst obj @ map (str h) ks)
                    else firstSeen (map fst obj @ map (str h) ks) @ [str h k])"
    by (rule firstSeen_snoc)
  finally have fs: "firstSeen (map fst obj @ map (str h) (ks @ [k])) =
      (if str h k \<in> set (map fst obj @ map (str h) ks)
       then firstSeen (map fst obj @ map (str h) ks)
       else firstSeen (map fst obj @ map (str h) ks) @ [str h k])" .
  have k: "str h k \<noteq> ''__proto__''" using snoc.prems by simp
  have ih: "map fst (fillNames h m ks obj) = firstSeen (map fst obj @ map (str h) ks)"
    using snoc.IH [OF snoc.prems(1) np] .
  have "map fst (fillNames h m (ks @ [k]) obj) =
        map fst (setProp (fillNames h m ks obj) (str h k) (get m k))"
    using k by (simp add: fill_append assign_def)
  also have "\<dots> = (if str h k \<in> set (map fst obj @ map (str h) ks)
                    then firstSeen (map fst obj @ map (str h) ks)
                    else firstSeen (map fst obj @ map (str h) ks) @ [str h k])"
    using mem by (simp only: fst_setProp ih) 
  finally show ?case using fs by simp
qed

lemma creation_order:
  "groupBy h S p = Inr res \<Longrightarrow>
   map fst res = firstSeen (map (str h) (assigned h (firstSeen (selected (keySelector h p) S))))"
  by (drule groupBy_Inr_assigned) (simp add: fst_fill [OF _ assigned_no_proto])

lemma stringToInt_inj: "inj_on stringToInt {s. isArrayIndex s}"
  by (rule inj_on_inverseI [of _ digits]) (simp add: isArrayIndex_def)

lemma keys_split:
  "keys obj = map fst (sort_key (\<lambda>p. stringToInt (fst p)) (filter (\<lambda>p. isArrayIndex (fst p)) obj)) @
              filter (\<lambda>k. \<not> isArrayIndex k) (map fst obj)"
  by (simp add: keys_def entries_def filter_map comp_def)

lemma keys_index_part:
  "filter isArrayIndex (keys obj) =
     map fst (sort_key (\<lambda>p. stringToInt (fst p)) (filter (\<lambda>p. isArrayIndex (fst p)) obj))"
proof -
  have "filter isArrayIndex (map fst (sort_key (\<lambda>p. stringToInt (fst p)) (filter (\<lambda>p. isArrayIndex (fst p)) obj))) =
        map fst (sort_key (\<lambda>p. stringToInt (fst p)) (filter (\<lambda>p. isArrayIndex (fst p)) obj))"
    by (intro filter_True) auto
  then show ?thesis by (simp add: keys_split)
qed

lemma keys_other_part:
  "filter (\<lambda>k. \<not> isArrayIndex k) (keys obj) = filter (\<lambda>k. \<not> isArrayIndex k) (map fst obj)"
proof -
  have "filter (\<lambda>k. \<not> isArrayIndex k) (map fst (sort_key (\<lambda>p. stringToInt (fst p)) (filter (\<lambda>p. isArrayIndex (fst p)) obj))) = []"
    by (auto simp: filter_empty_conv)
  then show ?thesis by (simp add: keys_split)
qed

lemma keys_index_sorted:
  assumes "distinct (map fst obj)"
  shows "sorted_wrt (<) (map stringToInt (filter isArrayIndex (keys obj)))"
proof -
  let ?xs = "filter (\<lambda>p. isArrayIndex (fst p)) obj"
  let ?f = "\<lambda>p. stringToInt (fst p)"
  have e: "map stringToInt (filter isArrayIndex (keys obj)) = map ?f (sort_key ?f ?xs)"
    by (simp add: keys_index_part comp_def)
  have "distinct (map fst ?xs)" using assms by (simp add: distinct_map_filter)
  moreover have "inj_on stringToInt (set (map fst ?xs))"
    by (rule inj_on_subset [OF stringToInt_inj]) auto
  ultimately have "distinct (map stringToInt (map fst ?xs))"
    using distinct_map [of stringToInt "map fst ?xs"] by blast
  then have "distinct (map ?f ?xs)" by (simp add: comp_def)
  then have "distinct (map ?f (sort_key ?f ?xs))"
    by (metis mset_eq_imp_distinct_iff mset_map mset_sort)
  then show ?thesis unfolding e by (simp add: strict_sorted_iff)
qed

lemma names_assigned:
  "map (str h) (assigned h ks) =
     filter (\<lambda>n. n \<noteq> ''__proto__'') (map (str h) (sortNames h ks))"
  by (simp add: assigned_def filter_map comp_def)

lemma not_index_undefined: "\<not> isArrayIndex ''undefined''"
  by (simp add: isArrayIndex_def)

text \<open>
  The properties are created in ascending order of their keys, the key \<open>undefined\<close>
  apart.
\<close>

lemma creation_sorted:
  assumes "groupBy h S p = Inr res" and "\<not> Q ''undefined''"
  shows "sorted_wrt (<) (filter Q (map fst res))"
proof -
  let ?K = "firstSeen (selected (keySelector h p) S)"
  let ?ss = "map (str h) (sort_key (str h) (filter (\<lambda>x. x \<noteq> Undefined) ?K))"
  let ?R = "\<lambda>n. n \<noteq> ''__proto__''"
  have u: "filter Q (filter ?R (map (str h) (filter (\<lambda>x. x = Undefined) ?K))) = []"
    using assms(2) by (auto simp: filter_empty_conv)
  have "filter Q (map fst res) = firstSeen (filter Q (filter ?R (map (str h) (sortNames h ?K))))"
    by (simp only: creation_order [OF assms(1)] filter_firstSeen names_assigned)
  also have "\<dots> = firstSeen (filter Q (filter ?R ?ss))"
    using u by (simp add: sortNames_def)
  finally have e: "filter Q (map fst res) = firstSeen (filter Q (filter ?R ?ss))" .
  have "sorted ?ss" by simp
  then have "sorted (filter ?R ?ss)" by (rule sorted_wrt_filter)
  then have "sorted (filter Q (filter ?R ?ss))" by (rule sorted_wrt_filter)
  then show ?thesis unfolding e by (rule sorted_firstSeen)
qed

lemma keys_other_sorted:
  assumes "groupBy h S p = Inr res"
  shows "sorted_wrt (<) (filter (\<lambda>k. \<not> isArrayIndex k \<and> k \<noteq> ''undefined'') (keys res))"
proof -
  let ?Q = "\<lambda>k. \<not> isArrayIndex k \<and> k \<noteq> ''undefined''"
  have "filter ?Q (keys res) = filter (\<lambda>k. k \<noteq> ''undefined'') (filter (\<lambda>k. \<not> isArrayIndex k) (keys res))"
    by (simp add: conj_commute)
  also have "\<dots> = filter ?Q (map fst res)"
    by (simp add: keys_other_part conj_commute)
  finally have e: "filter ?Q (keys res) = filter ?Q (map fst res)" .
  show ?thesis unfolding e by (rule creation_sorted [OF assms]) simp
qed

text \<open>
  The property of the name \<open>undefined\<close> is created last, unless another name with the
  string \<open>undefined\<close> has created it before.
\<close>

lemma undefined_created_last:
  assumes "groupBy h S p = Inr res"
    and "Undefined \<in> set (selected (keySelector h p) S)"
    and "\<forall>k \<in> set (selected (keySelector h p) S). k \<noteq> Undefined \<longrightarrow> toString h k \<noteq> Inr ''undefined''"
  shows "\<exists>ns. map fst res = ns @ [''undefined'']"
proof -
  let ?K = "firstSeen (selected (keySelector h p) S)"
  let ?items = "sort_key (str h) (filter (\<lambda>x. x \<noteq> Undefined) ?K)"
  let ?ss = "filter (\<lambda>n. n \<noteq> ''__proto__'') (map (str h) ?items)"
  have c: "\<forall>k \<in> set ?K. converts h k"
    using groupBy_Inr_converts [OF assms(1)] by simp
  have "filter (\<lambda>x. x = Undefined) ?K = [Undefined]"
    using assms(2) by (simp add: filter_Undefined_distinct)
  then have n: "map (str h) (assigned h ?K) = ?ss @ [''undefined'']"
    by (simp add: names_assigned sortNames_def)
  have "''undefined'' \<notin> set ?ss"
  proof
    assume "''undefined'' \<in> set ?ss"
    then obtain k where k: "k \<in> set ?K" "k \<noteq> Undefined" "str h k = ''undefined''"
      by auto
    then have "toString h k = Inr ''undefined''" using c by (simp add: converts_str)
    then show False using assms(3) k by simp
  qed
  then have "firstSeen (?ss @ [''undefined'']) = firstSeen ?ss @ [''undefined'']"
    by (simp add: firstSeen_snoc)
  then have "map fst res = firstSeen ?ss @ [''undefined'']"
    by (simp only: creation_order [OF assms(1)] n)
  then show ?thesis by blast
qed

lemma set_keys: "set (keys obj) = set (map fst obj)"
  by (auto simp: keys_def entries_def)

lemma mset_keys: "mset (keys obj) = mset (map fst obj)"
proof -
  have "mset (filter (\<lambda>p. isArrayIndex (fst p)) obj) + mset (filter (\<lambda>p. \<not> isArrayIndex (fst p)) obj) =
        mset obj"
    by (induction obj) simp_all
  then have "mset (entries obj) = mset obj" by (simp add: entries_def)
  then have "mset (map fst (entries obj)) = mset (map fst obj)" by (simp only: mset_map)
  then show ?thesis by (simp add: keys_def)
qed

lemma keys_last:
  assumes "map fst obj = ns @ [''undefined'']"
  shows "\<exists>ks. keys obj = ks @ [''undefined'']"
proof -
  have "filter (\<lambda>k. \<not> isArrayIndex k) (map fst obj) =
        filter (\<lambda>k. \<not> isArrayIndex k) ns @ [''undefined'']"
    unfolding assms by (simp add: not_index_undefined)
  moreover have "keys obj = filter isArrayIndex (keys obj) @ filter (\<lambda>k. \<not> isArrayIndex k) (map fst obj)"
    by (simp only: keys_index_part) (rule keys_split)
  ultimately have "keys obj = (filter isArrayIndex (keys obj) @ filter (\<lambda>k. \<not> isArrayIndex k) ns) @ [''undefined'']"
    by (simp only: append_assoc)
  then show ?thesis by blast
qed




section \<open>Flattening and grouping again\<close>

text \<open>
  C7: flattening the result and grouping again does not always give the same result.
  The records \<open>{k: 'undefined'}\<close>, \<open>{k: 'zebra'}\<close> and \<open>{}\<close> grouped by \<open>k\<close> have the
  group names \<open>'undefined'\<close>, \<open>'zebra'\<close> and \<open>undefined\<close>. Line 37 assigns the property
  \<open>undefined\<close> twice: the string creates it, before \<open>zebra\<close>, and the name \<open>undefined\<close>,
  sorted last, replaces its group, so the first record is in no group and the result
  lists \<open>undefined\<close> before \<open>zebra\<close>. Its flattening holds the third and the second
  record; grouping them creates \<open>zebra\<close> first and \<open>undefined\<close> last.
\<close>

theorem regrouping_failing_input:
  "groupBy undefHeap [Ref 0, Ref 1, Ref 2] (NotCallable (Str ''k'')) =
     Inr [(''undefined'', Some [Ref 2]), (''zebra'', Some [Ref 1])] \<and>
   flatten [(''undefined'', Some [Ref 2]), (''zebra'', Some [Ref 1])] = [Ref 2, Ref 1] \<and>
   groupBy undefHeap [Ref 2, Ref 1] (NotCallable (Str ''k'')) =
     Inr [(''zebra'', Some [Ref 1]), (''undefined'', Some [Ref 2])] \<and>
   keys [(''undefined'', Some [Ref 2]), (''zebra'', Some [Ref 1])] = [''undefined'', ''zebra''] \<and>
   keys [(''zebra'', Some [Ref 1]), (''undefined'', Some [Ref 2])] = [''zebra'', ''undefined'']"
proof (intro conjI)
  show "groupBy undefHeap [Ref 0, Ref 1, Ref 2] (NotCallable (Str ''k'')) =
     Inr [(''undefined'', Some [Ref 2]), (''zebra'', Some [Ref 1])]"
    by code_simp
  show "flatten [(''undefined'', Some [Ref 2]), (''zebra'', Some [Ref 1])] = [Ref 2, Ref 1]"
    by code_simp
  show "groupBy undefHeap [Ref 2, Ref 1] (NotCallable (Str ''k'')) =
     Inr [(''zebra'', Some [Ref 1]), (''undefined'', Some [Ref 2])]"
    by code_simp
  show "keys [(''undefined'', Some [Ref 2]), (''zebra'', Some [Ref 1])] = [''undefined'', ''zebra'']"
    by code_simp
  show "keys [(''zebra'', Some [Ref 1]), (''undefined'', Some [Ref 2])] = [''zebra'', ''undefined'']"
    by code_simp
qed


section \<open>The store: what the call writes\<close>

lemma has_view [simp]: "has (view st m) k = has m k"
  by (simp add: has_def view_def comp_def)

lemma fst_view [simp]: "map fst (view st m) = map fst m"
  by (simp add: view_def comp_def)

lemma get_view: "get (view st m) k = map_option (\<lambda>a. st ! a) (get m k)"
  by (induction m) (auto simp: get_def view_def)

lemma view_update_other:
  "a \<notin> snd ` set m \<Longrightarrow> view (st[a := v]) m = view st m"
  by (induction m) (auto simp: view_def)

lemma view_update:
  "distinct (map snd m) \<Longrightarrow> map_of m k = Some a \<Longrightarrow> a < length st \<Longrightarrow>
   view (st[a := v]) m = set_entry (view st m) k v"
proof (induction m)
  case Nil
  then show ?case by simp
next
  case (Cons p m)
  show ?case
  proof (cases "fst p = k")
    case True
    then have "snd p = a" using Cons.prems by (cases p) auto
    moreover have "a \<notin> snd ` set m" using Cons.prems \<open>snd p = a\<close> by auto
    ultimately show ?thesis using True Cons.prems view_update_other [of a m st v]
      by (cases p) (simp add: view_def)
  next
    case False
    then have m: "map_of m k = Some a" using Cons.prems by (cases p) auto
    then have "(k, a) \<in> set m" by (rule map_of_SomeD)
    then have "snd p \<noteq> a" using Cons.prems by (cases p) force
    then show ?thesis using False Cons.IH [OF _ m] Cons.prems
      by (cases p) (simp add: view_def)
  qed
qed

lemma view_append: "view st (m @ m') = view st m @ view st m'"
  by (simp add: view_def)

lemma view_grow:
  "\<forall>a \<in> snd ` set m. a < length st \<Longrightarrow> view (st @ ys) m = view st m"
  by (induction m) (auto simp: view_def nth_append)

lemma step_sim_present:
  assumes "loopInv st0 m st" and "has m k"
  shows "\<exists>a. get m k = Some a \<and>
     push (view st m) k x = Inr (view (pushAt st a x) m) \<and> loopInv st0 m (pushAt st a x)"
proof -
  obtain a where a: "map_of m k = Some a"
    using assms(2) by (cases "map_of m k") (auto simp: has_def map_of_eq_None_iff)
  then have "(k, a) \<in> set m" by (rule map_of_SomeD)
  then have "a \<in> snd ` set m" by force
  then have r: "length st0 \<le> a" "a < length st" using assms(1) by (auto simp: loopInv_def)
  have d: "distinct (map snd m)" using assms(1) by (simp add: loopInv_def)
  have a': "get m k = Some a" using a by (simp add: get_def)
  have g: "get (view st m) k = Some (st ! a)"
    by (simp add: get_view a')
  have v: "view (pushAt st a x) m = set_entry (view st m) k (st ! a @ [x])"
    unfolding pushAt_def using d a r(2) by (rule view_update)
  have "loopInv st0 m (pushAt st a x)"
    using assms(1) r by (simp add: loopInv_def pushAt_def)
  then show ?thesis using a g v by (simp add: push_def get_def)
qed

lemma step_sim_absent:
  assumes "loopInv st0 m st" and "\<not> has m k"
  shows "get (set_entry m k (length st)) k = Some (length st) \<and>
     push (set_entry (view st m) k []) k x =
       Inr (view (pushAt (st @ [[]]) (length st) x) (set_entry m k (length st))) \<and>
     loopInv st0 (set_entry m k (length st)) (pushAt (st @ [[]]) (length st) x)"
proof -
  have nk: "k \<notin> fst ` set m" using assms(2) by (simp add: has_def)
  have nv: "k \<notin> fst ` set (view st m)"
    using nk by (force simp: view_def)
  have m1: "set_entry m k (length st) = m @ [(k, length st)]"
    using nk by (rule set_entry_absent)
  have p: "pushAt (st @ [[]]) (length st) x = st @ [[x]]"
    by (simp add: pushAt_def)
  have r: "\<forall>a \<in> snd ` set m. a < length st" using assms(1) by (auto simp: loopInv_def)
  have v: "view (st @ [[x]]) (m @ [(k, length st)]) = view st m @ [(k, [x])]"
    using view_grow [OF r, of "[[x]]"] by (simp add: view_append) (simp add: view_def)
  have "map_of (view st m) k = None" using nv by (simp add: map_of_eq_None_iff)
  then have g: "get (view st m @ [(k, [])]) k = Some []"
    by (simp add: get_def map_add_def)
  have "map_of m k = None" using nk by (simp add: map_of_eq_None_iff)
  then have gm: "get (m @ [(k, length st)]) k = Some (length st)"
    by (simp add: get_def map_add_def)
  have "push (set_entry (view st m) k []) k x = Inr (view st m @ [(k, [x])])"
    using g by (simp add: push_def set_entry_absent [OF nv] set_entry_snoc [OF nv])
  moreover note gm
  moreover have "loopInv st0 (m @ [(k, length st)]) (st @ [[x]])"
    using assms(1) nk r by (auto simp: loopInv_def)
  ultimately show ?thesis by (simp add: m1 p v)
qed

lemma loopInv_nth:
  "loopInv st0 m st \<Longrightarrow> a < length st0 \<Longrightarrow> st ! a = st0 ! a"
  by (metis loopInv_def nth_take)

lemma iterate_sim:
  assumes "objects < length st0"
  shows "loopInv st0 m st \<Longrightarrow> length (st0 ! objects) - i < fuel \<Longrightarrow>
     \<exists>out st'. iterate fuel sel objects i m st = Some (out, st') \<and> take (length st0) st' = st0 \<and>
       length st0 \<le> length st' \<and>
       (case out of
          Inl e \<Rightarrow> accumulate sel (drop i (st0 ! objects)) (view st m) = Inl e
        | Inr m' \<Rightarrow> accumulate sel (drop i (st0 ! objects)) (view st m) = Inr (view st' m') \<and>
                    loopInv st0 m' st')"
proof (induction fuel arbitrary: i m st)
  case 0
  then show ?case by simp
next
  case (Suc fuel)
  let ?S = "st0 ! objects"
  have S: "st ! objects = ?S" using Suc.prems(1) assms by (rule loopInv_nth)
  have fr: "take (length st0) st = st0" "length st0 \<le> length st"
    using Suc.prems(1) by (simp_all add: loopInv_def)
  show ?case
  proof (cases "i < length ?S")
    case False
    then show ?thesis using S fr Suc.prems(1) by simp
  next
    case True
    then have dr: "drop i ?S = ?S ! i # drop (Suc i) ?S"
      by (simp add: Cons_nth_drop_Suc)
    have fu: "length ?S - Suc i < fuel" using Suc.prems(2) True by simp
    show ?thesis
    proof (cases "sel (?S ! i)")
      case (Inl e)
      then show ?thesis using True S fr dr by simp
    next
      case (Inr k)
      show ?thesis
      proof (cases "has m k")
        case h: True
        from step_sim_present [OF Suc.prems(1) h, of "?S ! i"] obtain a where
          a: "get m k = Some a"
          and p: "push (view st m) k (?S ! i) = Inr (view (pushAt st a (?S ! i)) m)"
          and i': "loopInv st0 m (pushAt st a (?S ! i))" by blast
        from Suc.IH [OF i' fu] obtain out st' where
          r: "iterate fuel sel objects (Suc i) m (pushAt st a (?S ! i)) = Some (out, st')"
            "take (length st0) st' = st0" "length st0 \<le> length st'"
            "(case out of
                Inl e \<Rightarrow> accumulate sel (drop (Suc i) ?S) (view (pushAt st a (?S ! i)) m) = Inl e
              | Inr m' \<Rightarrow> accumulate sel (drop (Suc i) ?S) (view (pushAt st a (?S ! i)) m) =
                            Inr (view st' m') \<and> loopInv st0 m' st')"
          by blast
        have it: "iterate (Suc fuel) sel objects i m st = Some (out, st')"
          using True S Inr h a r(1) by simp
        have ac: "accumulate sel (drop i ?S) (view st m) =
                  accumulate sel (drop (Suc i) ?S) (view (pushAt st a (?S ! i)) m)"
          using Inr h p by (simp add: dr)
        show ?thesis
        proof (intro exI conjI)
          show "iterate (Suc fuel) sel objects i m st = Some (out, st')" by (rule it)
          show "take (length st0) st' = st0" by (rule r(2))
          show "length st0 \<le> length st'" by (rule r(3))
          show "case out of
                  Inl e \<Rightarrow> accumulate sel (drop i ?S) (view st m) = Inl e
                | Inr m' \<Rightarrow> accumulate sel (drop i ?S) (view st m) = Inr (view st' m') \<and>
                            loopInv st0 m' st'"
            unfolding ac by (rule r(4))
        qed
      next
        case h: False
        let ?a = "length st"
        let ?m1 = "set_entry m k ?a"
        let ?st2 = "pushAt (st @ [[]]) ?a (?S ! i)"
        from step_sim_absent [OF Suc.prems(1) h, of "?S ! i"] have
          a: "get ?m1 k = Some ?a"
          and p: "push (set_entry (view st m) k []) k (?S ! i) = Inr (view ?st2 ?m1)"
          and i': "loopInv st0 ?m1 ?st2" by blast+
        from Suc.IH [OF i' fu] obtain out st' where
          r: "iterate fuel sel objects (Suc i) ?m1 ?st2 = Some (out, st')"
            "take (length st0) st' = st0" "length st0 \<le> length st'"
            "(case out of
                Inl e \<Rightarrow> accumulate sel (drop (Suc i) ?S) (view ?st2 ?m1) = Inl e
              | Inr m' \<Rightarrow> accumulate sel (drop (Suc i) ?S) (view ?st2 ?m1) =
                            Inr (view st' m') \<and> loopInv st0 m' st')"
          by blast
        have it: "iterate (Suc fuel) sel objects i m st = Some (out, st')"
          using True S Inr h a r(1) by (simp add: newArray_def)
        have ac: "accumulate sel (drop i ?S) (view st m) =
                  accumulate sel (drop (Suc i) ?S) (view ?st2 ?m1)"
          using Inr h p by (simp add: dr)
        show ?thesis
        proof (intro exI conjI)
          show "iterate (Suc fuel) sel objects i m st = Some (out, st')" by (rule it)
          show "take (length st0) st' = st0" by (rule r(2))
          show "length st0 \<le> length st'" by (rule r(3))
          show "case out of
                  Inl e \<Rightarrow> accumulate sel (drop i ?S) (view st m) = Inl e
                | Inr m' \<Rightarrow> accumulate sel (drop i ?S) (view st m) = Inr (view st' m') \<and>
                            loopInv st0 m' st'"
            unfolding ac by (rule r(4))
        qed
      qed
    qed
  qed
qed

lemma contents_setProp:
  "contents st (setProp obj n v) = setProp (contents st obj) n (map_option (\<lambda>a. st ! a) v)"
  by (induction obj) (auto simp: contents_def)

lemma contents_assign:
  "contents st (assign obj n v) = assign (contents st obj) n (map_option (\<lambda>a. st ! a) v)"
  by (simp add: assign_def contents_setProp)

lemma contents_fill:
  "fill h (view st m) ks (contents st obj) =
     (case fill h m ks obj of Inl e \<Rightarrow> Inl e | Inr result \<Rightarrow> Inr (contents st result))"
proof (induction ks arbitrary: obj)
  case Nil
  then show ?case by simp
next
  case (Cons k ks)
  show ?case
  proof (cases "toString h k")
    case (Inl e)
    then show ?thesis by simp
  next
    case (Inr name)
    have "assign (contents st obj) name (get (view st m) k) = contents st (assign obj name (get m k))"
      by (simp add: contents_assign get_view)
    then show ?thesis using Inr Cons.IH [of "assign obj name (get m k)"] by simp
  qed
qed

lemma set_setProp: "set (setProp obj n v) \<subseteq> insert (n, v) (set obj)"
  by (induction obj) (auto split: if_splits)

lemma set_assign: "set (assign obj n v) \<subseteq> insert (n, v) (set obj)"
  using set_setProp [of obj n v] by (auto simp: assign_def)

lemma fillNames_values:
  "(n, v) \<in> set (fillNames h m ks obj) \<Longrightarrow> (n, v) \<in> set obj \<or> (\<exists>k \<in> set ks. v = get m k)"
proof (induction ks arbitrary: obj)
  case Nil
  then show ?case by simp
next
  case (Cons k ks)
  from Cons.IH [of "assign obj (str h k) (get m k)"] Cons.prems
  have "(n, v) \<in> set (assign obj (str h k) (get m k)) \<or> (\<exists>k \<in> set ks. v = get m k)"
    by simp
  then show ?case using set_assign [of obj "str h k" "get m k"] by auto
qed

lemma fill_values:
  assumes "fill h m ks obj = Inr res" and "(n, v) \<in> set res"
  shows "(n, v) \<in> set obj \<or> (\<exists>k \<in> set ks. v = get m k)"
proof -
  have "fill h m ks obj = Inr (fillNames h m ks obj)"
    using fill_Inr_converts [OF assms(1)] by (rule fill_converts)
  then have "res = fillNames h m ks obj" using assms(1) by simp
  then show ?thesis using assms(2) fillNames_values by blast
qed

lemma loopInv_get:
  "loopInv st0 m st \<Longrightarrow> k \<in> fst ` set m \<Longrightarrow>
   \<exists>a. get m k = Some a \<and> length st0 \<le> a \<and> a < length st"
proof -
  assume i: "loopInv st0 m st" and k: "k \<in> fst ` set m"
  then obtain a where a: "map_of m k = Some a"
    by (cases "map_of m k") (auto simp: map_of_eq_None_iff)
  then have "(k, a) \<in> set m" by (rule map_of_SomeD)
  then have "a \<in> snd ` set m" by force
  then show ?thesis using i a by (auto simp: loopInv_def get_def)
qed

text \<open>
  With fuel beyond the length of \<open>objects\<close> the call on the store ends; what its caller
  reads is what \<open>groupBy\<close> computes from the elements of \<open>objects\<close>; the arrays that
  existed at the call are as they were, and the arrays of the result are new ones.
\<close>

lemma groupByS_refines:
  assumes "objects < length st" and "length (st ! objects) < fuel"
  shows "\<exists>out st'. groupByS fuel h st objects p = Some (out, st') \<and>
     outcome (out, st') = groupBy h (st ! objects) p \<and>
     take (length st) st' = st \<and> length st \<le> length st' \<and>
     (\<forall>res n v. out = Inr res \<and> (n, v) \<in> set res \<longrightarrow>
        (\<exists>a. v = Some a \<and> length st \<le> a \<and> a < length st'))"
proof -
  let ?sel = "keySelector h p"
  have i0: "loopInv st [] st" by (simp add: loopInv_def)
  have f0: "length (st ! objects) - 0 < fuel" using assms(2) by simp
  from iterate_sim [OF assms(1) i0 f0, of ?sel] obtain out0 st' where
    it: "iterate fuel ?sel objects 0 [] st = Some (out0, st')"
    and fr: "take (length st) st' = st" "length st \<le> length st'"
    and ac: "(case out0 of
        Inl e \<Rightarrow> accumulate ?sel (drop 0 (st ! objects)) (view st []) = Inl e
      | Inr m' \<Rightarrow> accumulate ?sel (drop 0 (st ! objects)) (view st []) = Inr (view st' m') \<and>
                  loopInv st m' st')"
    by blast
  show ?thesis
  proof (cases out0)
    case (Inl e)
    then have "groupByS fuel h st objects p = Some (Inl e, st')"
      using it assms(1) by (simp add: groupByS_def)
    moreover have "groupBy h (st ! objects) p = Inl e"
      using ac Inl by (simp add: groupBy_def view_def)
    ultimately show ?thesis using fr by (simp add: outcome_def)
  next
    case (Inr m')
    have a: "accumulate ?sel (st ! objects) [] = Inr (view st' m')" and i': "loopInv st m' st'"
      using ac Inr by (simp_all add: view_def)
    show ?thesis
    proof (cases "array_sort h (map fst m')")
      case e1: (Inl e)
      have "groupByS fuel h st objects p = Some (Inl e, st')"
        using it Inr assms(1) e1 by (simp add: groupByS_def)
      moreover have "groupBy h (st ! objects) p = Inl e"
        using a e1 by (simp add: groupBy_def)
      ultimately show ?thesis using fr by (simp add: outcome_def)
    next
      case ks: (Inr ks)
      have gb: "groupBy h (st ! objects) p =
          (case fill h m' ks [] of Inl e \<Rightarrow> Inl e | Inr result \<Rightarrow> Inr (contents st' result))"
        using a ks contents_fill [of h st' m' ks "[]"]
        by (simp add: groupBy_def) (simp add: contents_def)
      show ?thesis
      proof (cases "fill h m' ks []")
        case e2: (Inl e)
        have "groupByS fuel h st objects p = Some (Inl e, st')"
          using it Inr assms(1) ks e2 by (simp add: groupByS_def)
        moreover have "groupBy h (st ! objects) p = Inl e"
          using gb e2 by simp
        ultimately show ?thesis using fr by (simp add: outcome_def)
      next
        case res: (Inr res)
        have g: "groupByS fuel h st objects p = Some (Inr res, st')"
          using it Inr assms(1) ks res by (simp add: groupByS_def)
        have o: "outcome (Inr res, st') = groupBy h (st ! objects) p"
          using gb res by (simp add: outcome_def)
        have ad: "\<exists>a. v = Some a \<and> length st \<le> a \<and> a < length st'" if "(n, v) \<in> set res" for n v
        proof -
          from fill_values [OF res that] obtain k where "k \<in> set ks" "v = get m' k"
            by auto
          then have "k \<in> fst ` set m'" "v = get m' k"
            using array_sort_set [OF ks] by simp_all
          then show ?thesis using loopInv_get [OF i', of k] by auto
        qed
        show ?thesis using g o fr ad by blast
      qed
    qed
  qed
qed

text \<open>
  C10: the call writes to no array that existed when it was made: whatever the outcome,
  the store at the call is a prefix of the store after it, so \<open>objects\<close> holds the same
  elements in the same order. The caller's objects are only read, through a heap the
  call cannot change. Each array of the result is one the call allocated, and each of
  its elements is an element of \<open>objects\<close>: the value itself, for an object the same
  reference.
\<close>

theorem inputs_unmodified:
  assumes "objects < length st" and "length (st ! objects) < fuel"
  shows "\<exists>out st'. groupByS fuel h st objects p = Some (out, st') \<and>
     take (length st) st' = st \<and> st' ! objects = st ! objects \<and>
     (\<forall>res n v. out = Inr res \<and> (n, v) \<in> set res \<longrightarrow>
        (\<exists>a. v = Some a \<and> length st \<le> a \<and> a < length st' \<and>
             set (st' ! a) \<subseteq> set (st ! objects)))"
proof -
  from groupByS_refines [OF assms, of h p] obtain out st' where
    g: "groupByS fuel h st objects p = Some (out, st')"
    and o: "outcome (out, st') = groupBy h (st ! objects) p"
    and fr: "take (length st) st' = st"
    and ad: "\<forall>res n v. out = Inr res \<and> (n, v) \<in> set res \<longrightarrow>
        (\<exists>a. v = Some a \<and> length st \<le> a \<and> a < length st')"
    by blast
  have same: "st' ! objects = st ! objects"
    using fr assms(1) by (metis nth_take)
  have el: "\<exists>a. v = Some a \<and> length st \<le> a \<and> a < length st' \<and> set (st' ! a) \<subseteq> set (st ! objects)"
    if "out = Inr res" "(n, v) \<in> set res" for res n v
  proof -
    from ad that obtain a where a: "v = Some a" "length st \<le> a" "a < length st'" by blast
    have r: "groupBy h (st ! objects) p = Inr (contents st' res)"
      using o that(1) by (simp add: outcome_def)
    have "(n, Some (st' ! a)) \<in> set (contents st' res)"
      using that(2) a(1) by (force simp: contents_def)
    from result_entry [OF r this] have "set (st' ! a) \<subseteq> set (st ! objects)"
      by (auto simp: groupOf_def)
    then show ?thesis using a by blast
  qed
  show ?thesis using g fr same el by blast
qed

theorem inputs_unmodified_witness:
  "(1 :: nat) < length teamStore \<and> length (teamStore ! 1) < 4 \<and>
   groupByS 4 teamHeap teamStore 1 (NotCallable (Str ''team'')) =
     Some (Inr [(''blue'', Some 2), (''red'', Some 3)],
           [[Num 7], [Ref 0, Ref 1, Ref 2], [Ref 0, Ref 2], [Ref 1]]) \<and>
   take (length teamStore) [[Num 7], [Ref 0, Ref 1, Ref 2], [Ref 0, Ref 2], [Ref 1]] = teamStore \<and>
   (\<exists>a. Some (2 :: nat) = Some a \<and> length teamStore \<le> a \<and>
      set ([[Num 7], [Ref 0, Ref 1, Ref 2], [Ref 0, Ref 2], [Ref 1]] ! a) \<subseteq> set (teamStore ! 1))"
proof -
  have a: "(1 :: nat) < length teamStore" and b: "length (teamStore ! 1) < 4"
    by (simp_all add: teamStore_def)
  have e: "groupByS 4 teamHeap teamStore 1 (NotCallable (Str ''team'')) =
     Some (Inr [(''blue'', Some 2), (''red'', Some 3)],
           [[Num 7], [Ref 0, Ref 1, Ref 2], [Ref 0, Ref 2], [Ref 1]])"
    by code_simp
  from inputs_unmodified [OF a b, of teamHeap "NotCallable (Str ''team'')"] obtain out st' where
    g: "groupByS 4 teamHeap teamStore 1 (NotCallable (Str ''team'')) = Some (out, st')"
    and fr: "take (length teamStore) st' = teamStore"
    and el: "\<forall>res n v. out = Inr res \<and> (n, v) \<in> set res \<longrightarrow>
        (\<exists>a. v = Some a \<and> length teamStore \<le> a \<and> a < length st' \<and>
             set (st' ! a) \<subseteq> set (teamStore ! 1))"
    by blast
  from g e have o: "out = Inr [(''blue'', Some 2), (''red'', Some 3)]"
    and s: "st' = [[Num 7], [Ref 0, Ref 1, Ref 2], [Ref 0, Ref 2], [Ref 1]]" by simp_all
  have "(''blue'', Some (2 :: nat)) \<in> set [(''blue'', Some 2), (''red'', Some 3)]" by simp
  with el o have "\<exists>a. Some (2 :: nat) = Some a \<and> length teamStore \<le> a \<and> a < length st' \<and>
             set (st' ! a) \<subseteq> set (teamStore ! 1)" by blast
  then show ?thesis using a b e fr unfolding s by blast
qed

section \<open>Determinism\<close>

lemma map_sort_key: "map f (sort_key f xs) = sort (map f xs)"
  by (rule properties_for_sort [symmetric]) simp_all

lemma sort_mset: "mset xs = mset ys \<Longrightarrow> sort xs = sort ys"
  by (rule properties_for_sort) simp_all

text \<open>The strings in sorted order depend on the set of names, not on their order.\<close>

lemma names_order:
  assumes "distinct xs" "distinct ys" "set xs = set ys"
  shows "map (str h) (sortNames h xs) = map (str h) (sortNames h ys)"
proof -
  have m: "mset xs = mset ys"
    using assms by (simp add: set_eq_iff_mset_eq_distinct)
  then have "mset (map (str h) (filter (\<lambda>x. x \<noteq> Undefined) xs)) =
             mset (map (str h) (filter (\<lambda>x. x \<noteq> Undefined) ys))"
    by simp
  then have "sort (map (str h) (filter (\<lambda>x. x \<noteq> Undefined) xs)) =
             sort (map (str h) (filter (\<lambda>x. x \<noteq> Undefined) ys))"
    by (rule sort_mset)
  moreover have "filter (\<lambda>x. x = Undefined) xs = filter (\<lambda>x. x = Undefined) ys"
    using assms by (simp add: filter_Undefined_distinct)
  ultimately show ?thesis by (simp add: sortNames_def map_sort_key)
qed

lemma keys_fst:
  "keys obj = sort_key stringToInt (filter isArrayIndex (map fst obj)) @
              filter (\<lambda>k. \<not> isArrayIndex k) (map fst obj)"
  by (simp add: keys_split sort_key_map filter_map comp_def)

lemma keys_depend_on_names:
  assumes "groupBy h S1 p = Inr res1" and "groupBy h S2 p = Inr res2"
    and "set (selected (keySelector h p) S1) = set (selected (keySelector h p) S2)"
  shows "keys res1 = keys res2"
proof -
  have "map (str h) (sortNames h (firstSeen (selected (keySelector h p) S1))) =
        map (str h) (sortNames h (firstSeen (selected (keySelector h p) S2)))"
    by (rule names_order) (simp_all add: assms(3))
  then have "map fst res1 = map fst res2"
    by (simp only: creation_order [OF assms(1)] creation_order [OF assms(2)] names_assigned)
  then show ?thesis by (simp add: keys_fst)
qed

text \<open>
  C8: two calls on equal input arrays with the same selector, from whatever stores, end
  and give their callers equal results, and each leaves the arrays that existed at its
  call as they were, the state outside its result. The order in which the result lists
  its keys is decided by the set of group names alone, not by the order in which the
  \<open>Map\<close> came to hold them.
\<close>

theorem deterministic_and_pure:
  "(objects1 < length st1 \<and> objects2 < length st2 \<and> st1 ! objects1 = st2 ! objects2 \<and>
    length (st1 ! objects1) < fuel1 \<and> length (st2 ! objects2) < fuel2 \<longrightarrow>
      (\<exists>r1 r2. groupByS fuel1 h st1 objects1 p = Some r1 \<and>
               groupByS fuel2 h st2 objects2 p = Some r2 \<and>
               outcome r1 = outcome r2 \<and>
               take (length st1) (snd r1) = st1 \<and> take (length st2) (snd r2) = st2)) \<and>
   (groupBy h S1 p = Inr res1 \<and> groupBy h S2 p = Inr res2 \<and>
    set (selected (keySelector h p) S1) = set (selected (keySelector h p) S2) \<longrightarrow>
      keys res1 = keys res2)"
proof (intro conjI impI)
  assume a: "objects1 < length st1 \<and> objects2 < length st2 \<and> st1 ! objects1 = st2 ! objects2 \<and>
    length (st1 ! objects1) < fuel1 \<and> length (st2 ! objects2) < fuel2"
  from a have a1: "objects1 < length st1" "length (st1 ! objects1) < fuel1" by blast+
  from a have a2: "objects2 < length st2" "length (st2 ! objects2) < fuel2" by blast+
  from groupByS_refines [OF a1, of h p] obtain out1 st1' where
    r1: "groupByS fuel1 h st1 objects1 p = Some (out1, st1')"
      "outcome (out1, st1') = groupBy h (st1 ! objects1) p" "take (length st1) st1' = st1"
    by blast
  from groupByS_refines [OF a2, of h p] obtain out2 st2' where
    r2: "groupByS fuel2 h st2 objects2 p = Some (out2, st2')"
      "outcome (out2, st2') = groupBy h (st2 ! objects2) p" "take (length st2) st2' = st2"
    by blast
  have "outcome (out1, st1') = outcome (out2, st2')"
    using r1(2) r2(2) a by simp
  then show "\<exists>r1 r2. groupByS fuel1 h st1 objects1 p = Some r1 \<and>
               groupByS fuel2 h st2 objects2 p = Some r2 \<and>
               outcome r1 = outcome r2 \<and>
               take (length st1) (snd r1) = st1 \<and> take (length st2) (snd r2) = st2"
    using r1(1,3) r2(1,3) by (intro exI [of _ "(out1, st1')"] exI [of _ "(out2, st2')"]) simp
next
  assume "groupBy h S1 p = Inr res1 \<and> groupBy h S2 p = Inr res2 \<and>
    set (selected (keySelector h p) S1) = set (selected (keySelector h p) S2)"
  then show "keys res1 = keys res2"
    using keys_depend_on_names [of h S1 p res1 S2 res2] by blast
qed

theorem deterministic_and_pure_witness:
  "(1 :: nat) < length teamStore \<and> (0 :: nat) < length [[Ref 0, Ref 1, Ref 2 :: jsval]] \<and>
   teamStore ! 1 = [[Ref 0, Ref 1, Ref 2]] ! 0 \<and>
   length (teamStore ! 1) < 4 \<and> length ([[Ref 0, Ref 1, Ref 2 :: jsval]] ! 0) < 7 \<and>
   (\<exists>r1 r2. groupByS 4 teamHeap teamStore 1 (NotCallable (Str ''team'')) = Some r1 \<and>
             groupByS 7 teamHeap [[Ref 0, Ref 1, Ref 2]] 0 (NotCallable (Str ''team'')) = Some r2 \<and>
             outcome r1 = outcome r2 \<and>
             take (length teamStore) (snd r1) = teamStore \<and>
             take (length [[Ref 0, Ref 1, Ref 2 :: jsval]]) (snd r2) = [[Ref 0, Ref 1, Ref 2]])"
proof -
  have a: "(1 :: nat) < length teamStore \<and> (0 :: nat) < length [[Ref 0, Ref 1, Ref 2 :: jsval]] \<and>
     teamStore ! 1 = [[Ref 0, Ref 1, Ref 2]] ! 0 \<and>
     length (teamStore ! 1) < 4 \<and> length ([[Ref 0, Ref 1, Ref 2 :: jsval]] ! 0) < 7"
    by (simp add: teamStore_def)
  note t = deterministic_and_pure [of 1 teamStore 0 "[[Ref 0, Ref 1, Ref 2]]" 4 7 teamHeap
      "NotCallable (Str ''team'')"]
  from t a show ?thesis by blast
qed

section \<open>A group named \<open>__proto__\<close>\<close>

text \<open>
  The group whose name converts to \<open>__proto__\<close> becomes the prototype of the result,
  not one of its properties: its records are under no key.
\<close>

lemma proto_group_is_no_property:
  "groupBy protoHeap [Ref 0, Ref 1] (NotCallable (Str ''k'')) = Inr [(''a'', Some [Ref 1])]"
  by code_simp


end
